theory Spec2Isabelle
  imports Main "HOL-Library.Word" "HOL-Library.Sublist" "HOL-Library.AList"
begin

section \<open>Go values shared by the packages\<close>

text \<open>
  Go's \<open>int\<close> is modelled at its width on the 64-bit targets the module is built for:
  a 64-bit word whose \<open>+\<close>, \<open>-\<close> and \<open>*\<close> wrap around; comparisons are the signed
  ones (\<open><s\<close>, \<open>\<le>s\<close>) and \<open>sint\<close> reads the two's-complement value.
  A Go \<open>string\<close> is a byte sequence: \<open>string\<close> here, one \<open>char\<close> per byte.
\<close>

type_synonym go_int = "64 word"

section \<open>Go's strings package, as far as the repository calls it\<close>

text \<open>
  The standard-library functions the modelled code calls, on byte strings.
  \<open>strings.HasPrefix s p\<close> is \<open>prefix p s\<close>.
\<close>

text \<open>\<open>strings.Index\<close>: the byte offset of the first occurrence, \<open>None\<close> for Go's -1.\<close>

fun Index :: "string \<Rightarrow> string \<Rightarrow> nat option" where
  "Index [] substr = (if substr = [] then Some 0 else None)"
| "Index (c # s) substr =
     (if prefix substr (c # s) then Some 0 else map_option Suc (Index s substr))"


text \<open>
  \<open>strings.ReplaceAll\<close>: non-overlapping occurrences of \<open>old\<close>, found left to right, are
  replaced. For an empty \<open>old\<close> Go inserts \<open>new\<close> before every rune and at the end; the
  model does so before every byte, which is the same on ASCII text (the template
  renderer never passes an empty \<open>old\<close>).
\<close>

function ReplaceAll :: "string \<Rightarrow> string \<Rightarrow> string \<Rightarrow> string" where
  "ReplaceAll [] old new = (if old = [] then new else [])"
| "ReplaceAll (c # s) old new =
     (if old = [] then new @ c # ReplaceAll s old new
      else if prefix old (c # s) then new @ ReplaceAll (drop (length old) (c # s)) old new
      else c # ReplaceAll s old new)"
  by pat_completeness auto
termination
  by (relation "measure (\<lambda>(s, old, new). length s)") auto

text \<open>
  \<open>strings.SplitN s sep 2\<close> for a non-empty separator: the text before the first
  occurrence and the text after it, or the whole string alone when there is none.
\<close>

definition SplitN2 :: "string \<Rightarrow> string \<Rightarrow> string list" where
  "SplitN2 s sep =
     (case Index s sep of
        None \<Rightarrow> [s]
      | Some i \<Rightarrow> [take i s, drop (i + length sep) s])"



text \<open>\<open>strings.TrimPrefix\<close>.\<close>

definition TrimPrefix :: "string \<Rightarrow> string \<Rightarrow> string" where
  "TrimPrefix s p = (if prefix p s then drop (length p) s else s)"

section \<open>token/monitor.go: the token monitor\<close>

text \<open>
  \<open>TokenUsage\<close> keeps all fields of the Go struct; \<open>time.Time\<close> and \<open>time.Duration\<close>
  are opaque integers (no operation below reads them).
\<close>

record TokenUsage =
  TurnNumber :: go_int
  PromptTokens :: go_int
  CompletionTokens :: go_int
  TotalTokens :: go_int
  Model :: string
  Timestamp :: int
  Duration :: int

definition maxUsageHistory :: nat where
  "maxUsageHistory = 1000"

text \<open>
  \<open>Monitor\<close>: the mutex is left out (every method holds it for its whole body, so the
  methods are atomic state transformers), and so is the floating-point
  \<open>warningThreshold\<close>, which only \<open>IsWarning\<close> reads.
\<close>

record Monitor =
  maxTokens :: go_int
  totalPromptTokens :: go_int
  totalCompletionTokens :: go_int
  totalTokens :: go_int
  turnCount :: go_int
  usageHistory :: "TokenUsage list"
  pendingUpdate :: bool

definition NewMonitor :: "go_int \<Rightarrow> Monitor" where
  "NewMonitor mx =
     \<lparr> maxTokens = mx, totalPromptTokens = 0, totalCompletionTokens = 0, totalTokens = 0,
       turnCount = 0, usageHistory = [], pendingUpdate = False \<rparr>"

definition RecordUsage :: "Monitor \<Rightarrow> TokenUsage \<Rightarrow> Monitor" where
  "RecordUsage tm usage =
     (let tc = turnCount tm + 1;
          h = usageHistory tm @ [usage\<lparr>TurnNumber := tc\<rparr>]
      in tm\<lparr> totalPromptTokens := totalPromptTokens tm + PromptTokens usage,
             totalCompletionTokens := totalCompletionTokens tm + CompletionTokens usage,
             totalTokens := totalTokens tm + TotalTokens usage,
             turnCount := tc,
             usageHistory :=
               (if length h > maxUsageHistory then drop (length h - maxUsageHistory) h else h) \<rparr>)"

definition OnCompression :: "Monitor \<Rightarrow> go_int \<Rightarrow> go_int \<Rightarrow> Monitor" where
  "OnCompression tm beforeTokens afterTokens =
     (let saved = beforeTokens - afterTokens in
      if saved \<le>s 0 then tm
      else
        let p = totalPromptTokens tm - saved;
            t = totalTokens tm - saved
        in tm\<lparr> totalPromptTokens := (if p <s 0 then 0 else p),
               totalTokens := (if t <s 0 then 0 else t),
               pendingUpdate := True \<rparr>)"

definition DrainPendingUpdate :: "Monitor \<Rightarrow> bool \<times> Monitor" where
  "DrainPendingUpdate tm =
     (if \<not> pendingUpdate tm then (False, tm) else (True, tm\<lparr>pendingUpdate := False\<rparr>))"

text \<open>A sequence of \<open>RecordUsage\<close> calls, in call order.\<close>

definition RecordUsages :: "Monitor \<Rightarrow> TokenUsage list \<Rightarrow> Monitor" where
  "RecordUsages tm us = foldl RecordUsage tm us"

text \<open>A usage record with the given prompt, completion and total counts.\<close>

definition usage_of :: "go_int \<Rightarrow> go_int \<Rightarrow> go_int \<Rightarrow> TokenUsage" where
  "usage_of p c t =
     \<lparr> TurnNumber = 0, PromptTokens = p, CompletionTokens = c, TotalTokens = t,
       Model = [], Timestamp = 0, Duration = 0 \<rparr>"

section \<open>memory: summary messages and the LLM compressor\<close>

text \<open>
  \<open>model.Message\<close> of the agent framework, restricted to the two fields this package
  reads and writes; \<open>model.Role\<close> is a string type.
\<close>

record Message =
  Role :: string
  Content :: string

definition RoleSystem :: string where
  "RoleSystem = ''system''"

definition RoleUser :: string where
  "RoleUser = ''user''"

definition RoleAssistant :: string where
  "RoleAssistant = ''assistant''"

text \<open>The UTF-8 bytes of the tag that opens a summary, and of the whole prefix constant.\<close>

definition summaryTag :: string where
  "summaryTag = ''['' @ [CHR 0xE4, CHR 0xB8, CHR 0x8A, CHR 0xE4, CHR 0xB8, CHR 0x8B, CHR 0xE6,
     CHR 0x96, CHR 0x87, CHR 0xE6, CHR 0x91, CHR 0x98, CHR 0xE8, CHR 0xA6, CHR 0x81]"

definition SummaryPrefix :: string where
  "SummaryPrefix = ''['' @ [CHR 0xE4, CHR 0xB8, CHR 0x8A, CHR 0xE4, CHR 0xB8, CHR 0x8B, CHR 0xE6,
     CHR 0x96, CHR 0x87, CHR 0xE6, CHR 0x91, CHR 0x98, CHR 0xE8, CHR 0xA6, CHR 0x81] @
     '' '' @ [CHR 0xE2, CHR 0x80, CHR 0x94] @ '' '' @
     [CHR 0xE4, CHR 0xBB, CHR 0xA5, CHR 0xE4, CHR 0xB8, CHR 0x8B, CHR 0xE6, CHR 0x98, CHR 0xAF,
      CHR 0xE4, CHR 0xB9, CHR 0x8B, CHR 0xE5, CHR 0x89, CHR 0x8D, CHR 0xE5, CHR 0xAF, CHR 0xB9,
      CHR 0xE8, CHR 0xAF, CHR 0x9D, CHR 0xE7, CHR 0x9A, CHR 0x84, CHR 0xE5, CHR 0x8E, CHR 0x8B,
      CHR 0xE7, CHR 0xBC, CHR 0xA9, CHR 0xE6, CHR 0x80, CHR 0xBB, CHR 0xE7, CHR 0xBB, CHR 0x93] @
     '']'' @ [CHR 0x0A]"

definition IsSummaryMessage :: "string \<Rightarrow> bool" where
  "IsSummaryMessage content = prefix summaryTag content"

definition FormatSummaryMessage :: "string \<Rightarrow> Message" where
  "FormatSummaryMessage summary = \<lparr> Role = RoleSystem, Content = SummaryPrefix @ summary \<rparr>"

text \<open>
  A Go slice of messages: the address of its backing array and its elements.
  \<open>CompressIfNeeded\<close> compares element addresses, so the address is part of the value.
\<close>

record slice =
  arr :: nat
  elems :: "Message list"

text \<open>How a call ends: a normal return, an error return, or a run-time panic.\<close>

datatype 'a outcome = Ok 'a | Err string | Panic

text \<open>
  \<open>LLMCompressor\<close>. The model and the floating-point threshold enter through what the
  code does with them: \<open>callSummarize\<close> is the outcome of the method of that name (the
  LLM round trip: \<open>Inl\<close> an error message, \<open>Inr\<close> the trimmed, non-empty summary) on a
  conversation text, and \<open>belowThreshold currentTokens\<close> is the outcome of the float64
  test \<open>float64(currentTokens) / float64(c.contextWindow) < c.threshold\<close>, with the
  threshold as the constructor has coerced it. The token counter is not used by the two
  methods below.
\<close>

record LLMCompressor =
  callSummarize :: "string \<Rightarrow> string + string"
  contextWindow :: go_int
  belowThreshold :: "go_int \<Rightarrow> bool"
  keepRecentTurns :: go_int

definition NewLLMCompressor ::
  "(string \<Rightarrow> string + string) \<Rightarrow> go_int \<Rightarrow> (go_int \<Rightarrow> bool) \<Rightarrow> go_int \<Rightarrow> LLMCompressor" where
  "NewLLMCompressor llm cw below keep =
     \<lparr> callSummarize = llm, contextWindow = cw, belowThreshold = below,
       keepRecentTurns = (if keep \<le>s 0 then 3 else keep) \<rparr>"

definition systemMsgs_of :: "Message list \<Rightarrow> Message list" where
  "systemMsgs_of msgs = filter (\<lambda>m. Role m = RoleSystem) msgs"

definition conversationMsgs_of :: "Message list \<Rightarrow> Message list" where
  "conversationMsgs_of msgs = filter (\<lambda>m. Role m \<noteq> RoleSystem) msgs"

definition truncationMark :: string where
  "truncationMark = ''...('' @ [CHR 0xE6, CHR 0x88, CHR 0xAA, CHR 0xE6, CHR 0x96, CHR 0xAD] @ '')''"

definition convLine :: "Message \<Rightarrow> string" where
  "convLine msg =
     (let content = (if length (Content msg) > 2000
                     then take 2000 (Content msg) @ truncationMark else Content msg)
      in ''['' @ Role msg @ '']: '' @ content @ [CHR 0x0A])"

text \<open>
  \<open>compress\<close> and \<open>CompressIfNeeded\<close>. \<open>newArr\<close> is the address the runtime gives the
  backing array of \<open>result\<close>, which \<open>append\<close> allocates. \<open>keepCount >= len(...)\<close> compares
  signed ints; a negative \<open>keepCount\<close> that passes it puts the slice bound
  \<open>len - keepCount\<close> out of range, and the slice expression panics. An error of
  \<open>compress\<close> is logged and swallowed by \<open>CompressIfNeeded\<close>, whose own error result is
  always nil and is left out.
\<close>

definition compress :: "LLMCompressor \<Rightarrow> nat \<Rightarrow> slice \<Rightarrow> slice outcome" where
  "compress c newArr msgs =
     (if length (elems msgs) \<le> 1 then Ok msgs
      else
        let systemMsgs = systemMsgs_of (elems msgs);
            conversationMsgs = conversationMsgs_of (elems msgs);
            keepCount = keepRecentTurns c * 2
        in if int (length conversationMsgs) \<le> sint keepCount then Ok msgs
           else if sint keepCount < 0 then Panic
           else
             let n = length conversationMsgs - nat (sint keepCount);
                 toCompress = take n conversationMsgs;
                 toKeep = drop n conversationMsgs
             in case callSummarize c (concat (map convLine toCompress)) of
                  Inl e \<Rightarrow> Err e
                | Inr summary \<Rightarrow>
                    Ok \<lparr> arr = newArr,
                         elems = filter (\<lambda>sm. \<not> IsSummaryMessage (Content sm)) systemMsgs @
                                 [FormatSummaryMessage summary] @ toKeep \<rparr>)"

definition CompressIfNeeded ::
  "LLMCompressor \<Rightarrow> nat \<Rightarrow> slice \<Rightarrow> go_int \<Rightarrow> (slice \<times> bool) outcome" where
  "CompressIfNeeded c newArr msgs currentTokens =
     (if contextWindow c \<le>s 0 \<or> currentTokens \<le>s 0 then Ok (msgs, False)
      else if belowThreshold c currentTokens then Ok (msgs, False)
      else
        case compress c newArr msgs of
          Err e \<Rightarrow> Ok (msgs, False)
        | Panic \<Rightarrow> Panic
        | Ok compressed \<Rightarrow>
            Ok (compressed,
                length (elems compressed) \<noteq> length (elems msgs) \<or>
                (length (elems compressed) > 0 \<and> arr compressed \<noteq> arr msgs)))"

text \<open>
  The three parts of the rebuilt list, named as the policy names them: the system
  messages that are not summaries, the older conversation messages that are summarised,
  and the \<open>keepRecentTurns \<times> 2\<close> most recent conversation messages.
\<close>

definition preservedSystem :: "Message list \<Rightarrow> Message list" where
  "preservedSystem msgs =
     filter (\<lambda>m. Role m = RoleSystem \<and> \<not> IsSummaryMessage (Content m)) msgs"

definition compressionTarget :: "LLMCompressor \<Rightarrow> Message list \<Rightarrow> Message list" where
  "compressionTarget c msgs =
     take (length (conversationMsgs_of msgs) - nat (2 * sint (keepRecentTurns c)))
       (conversationMsgs_of msgs)"

definition keptConversation :: "LLMCompressor \<Rightarrow> Message list \<Rightarrow> Message list" where
  "keptConversation c msgs =
     drop (length (conversationMsgs_of msgs) - nat (2 * sint (keepRecentTurns c)))
       (conversationMsgs_of msgs)"

text \<open>
  Example values: a compressor with context window 10000, threshold 0.7 and one recent
  turn kept, once with a model that answers and once with one whose call fails; and a
  history of a system prompt, an earlier summary and five conversation messages.
\<close>

definition exampleCompressor :: "(string \<Rightarrow> string + string) \<Rightarrow> LLMCompressor" where
  "exampleCompressor llm = NewLLMCompressor llm 10000 (\<lambda>t. sint t < 7000) 1"

definition answeringModel :: "string \<Rightarrow> string + string" where
  "answeringModel text = Inr ''recap''"

definition failingModel :: "string \<Rightarrow> string + string" where
  "failingModel text = Inl ''summarize returned empty result''"

definition exampleHistory :: slice where
  "exampleHistory =
     \<lparr> arr = 0,
       elems = [\<lparr>Role = RoleSystem, Content = ''system prompt''\<rparr>,
                \<lparr>Role = RoleSystem, Content = SummaryPrefix @ ''earlier''\<rparr>,
                \<lparr>Role = RoleUser, Content = ''msg1''\<rparr>,
                \<lparr>Role = RoleAssistant, Content = ''reply1''\<rparr>,
                \<lparr>Role = RoleUser, Content = ''msg2''\<rparr>,
                \<lparr>Role = RoleAssistant, Content = ''reply2''\<rparr>,
                \<lparr>Role = RoleUser, Content = ''msg3''\<rparr>] \<rparr>"

section \<open>pipeline/render.go: the template renderer\<close>

text \<open>
  \<open>vars\<close> is a Go map that the function ranges over. The language leaves the order of a
  map range unspecified (it differs from run to run), so the map is given as its
  entries in the order the loop visits them: an association list with distinct keys.
\<close>

definition RenderTemplate :: "string \<Rightarrow> (string \<times> string) list \<Rightarrow> string" where
  "RenderTemplate content vars =
     (if content = [] \<or> length vars = 0 then content
      else foldl (\<lambda>rendered (key, value). ReplaceAll rendered (''{{'' @ key @ ''}}'') value)
             content vars)"

text \<open>
  Templates in which substitution cannot make or break a placeholder: the content is a
  sequence of plain text and placeholders \<open>{{name}}\<close>, and neither the text, nor a name,
  nor a key, nor a value holds a brace. \<open>flatten\<close> is the content string of such a
  sequence, and \<open>fill\<close> puts the value of a map in the place of a placeholder whose name
  is a key of the map.
\<close>

datatype template_token = Text string | Hole string

fun flatten :: "template_token list \<Rightarrow> string" where
  "flatten [] = []"
| "flatten (Text t # toks) = t @ flatten toks"
| "flatten (Hole n # toks) = ''{{'' @ n @ ''}}'' @ flatten toks"

definition braceFree :: "string \<Rightarrow> bool" where
  "braceFree s = (CHR ''{'' \<notin> set s \<and> CHR ''}'' \<notin> set s)"

fun plainToken :: "template_token \<Rightarrow> bool" where
  "plainToken (Text t) = braceFree t"
| "plainToken (Hole n) = braceFree n"

definition plainVars :: "(string \<times> string) list \<Rightarrow> bool" where
  "plainVars vars = list_all (\<lambda>(key, value). braceFree key \<and> braceFree value) vars"

fun fill :: "(string \<rightharpoonup> string) \<Rightarrow> template_token \<Rightarrow> template_token" where
  "fill m (Text t) = Text t"
| "fill m (Hole n) = (case m n of Some v \<Rightarrow> Text v | None \<Rightarrow> Hole n)"

text \<open>Example values: the template and the variables of the renderer's test.\<close>

definition exampleTemplate :: "template_token list" where
  "exampleTemplate =
     [Text ''Hello '', Hole ''name'', Text '', output: '', Hole ''output_path'', Text ''.'']"

section \<open>pipeline/errors.go: error codes and the classifier\<close>








definition ErrCodeUnknown :: string where
  "ErrCodeUnknown = ''unknown''"

text \<open>
  Go error values, as far as the classifier tells them apart: a plain error with its
  message (\<open>errors.New\<close>), the two context sentinels, an error that wraps another one
  under a message of its own (\<open>fmt.Errorf\<close> with \<open>%w\<close>), and the package's \<open>ToolError\<close>
  with its \<open>Code\<close> and its \<open>Err\<close>, which may be nil. A nil error is \<open>None\<close>.
\<close>

datatype go_error =
    ErrorString string
  | DeadlineExceeded
  | Canceled
  | WrapError string go_error
  | ToolError string "go_error option"


fun Unwrap :: "go_error \<Rightarrow> go_error option" where
  "Unwrap (WrapError m e) = Some e"
| "Unwrap (ToolError code err) = err"
| "Unwrap e = None"




text \<open>
  The precedence in the words of the specification, for comparison with the code. The
  errors a value wraps are its unwrap chain, outermost first. \<open>attachedCodes\<close> are the
  non-empty codes the \<open>ToolError\<close>s on the chain carry; \<open>outermostCode\<close> is the code of
  the first \<open>ToolError\<close> on the chain alone, empty or not.
\<close>

fun unwrapChain :: "go_error \<Rightarrow> go_error list" where
  "unwrapChain (WrapError m e) = WrapError m e # unwrapChain e"
| "unwrapChain (ToolError code (Some e)) = ToolError code (Some e) # unwrapChain e"
| "unwrapChain e = [e]"









section \<open>The fallback router (pipeline/graph\_helpers.go and flow/helpers.go)\<close>

text \<open>
  \<open>graph.State\<close> is a \<open>map[string]any\<close>. A stored value is a string or a value of some
  other dynamic type, for which the type assertion \<open>.(string)\<close> fails as it does for a
  missing key. The \<open>fallback\<close> map is given by its entries (a nil map has none); the
  router only looks keys up. Its error result is always nil and is left out.
\<close>

datatype go_any = AnyString string | AnyOther

definition StateKeyPipelineErrorCode :: string where
  "StateKeyPipelineErrorCode = ''pipeline_error_code''"

definition makeFallbackRouter ::
  "(string \<times> string) list \<Rightarrow> (string \<rightharpoonup> go_any) \<Rightarrow> string" where
  "makeFallbackRouter fallback state =
     (case state StateKeyPipelineErrorCode of
        Some (AnyString code) \<Rightarrow>
          if code \<noteq> [] then
            if map_of fallback code \<noteq> None then code
            else if map_of fallback ''default'' \<noteq> None then ''default''
            else ''success''
          else ''success''
      | _ \<Rightarrow> ''success'')"

section \<open>pipeline/frontmatter.go: step frontmatter and its parser\<close>

definition AdvanceAuto :: string where
  "AdvanceAuto = ''auto''"

definition AdvanceConfirm :: string where
  "AdvanceConfirm = ''confirm''"

definition AdvanceBlock :: string where
  "AdvanceBlock = ''block''"

text \<open>
  \<open>Frontmatter\<close>, field by field (\<open>Model\<close> is written \<open>Model_f\<close>, the name being taken by
  \<open>TokenUsage\<close>). \<open>Fallback\<close> is a Go map, given by its entries in range order.
\<close>

record Frontmatter =
  Step :: string
  Name :: string
  Title :: string
  Description :: string
  Output :: "string list"
  OutputTemplate :: string
  Input :: "string list"
  Tools :: "string list"
  MCP :: "string list"
  Next :: string
  Fallback :: "(string \<times> string) list"
  Advance :: string
  Model_f :: string
  MaxOutputTokens :: go_int

record PromptFile =
  Path :: string
  Frontmatter :: Frontmatter
  Body :: string

type_synonym StepDefinition = PromptFile

definition EffectiveTools :: "Frontmatter \<Rightarrow> string list" where
  "EffectiveTools f = (if length (Tools f) > 0 then Tools f else MCP f)"

definition PrimaryOutput :: "Frontmatter \<Rightarrow> string" where
  "PrimaryOutput f = (case Output f of out # rest \<Rightarrow> out | [] \<Rightarrow> [])"

text \<open>
  The YAML library is outside the repository. A \<open>yaml.Node\<close> is kept as its kind and
  its scalar value; \<open>value.Decode(&list)\<close> is the parameter \<open>decodeList\<close> of
  \<open>UnmarshalYAML\<close>.
\<close>

datatype yaml_kind = DocumentNode | SequenceNode | MappingNode | ScalarNode | AliasNode

record yaml_node =
  Kind :: yaml_kind
  Value :: string

definition UnmarshalYAML ::
  "(yaml_node \<Rightarrow> string + string list) \<Rightarrow> yaml_node \<Rightarrow> string + string list" where
  "UnmarshalYAML decodeList value =
     (if Kind value = ScalarNode then Inr [Value value]
      else (case decodeList value of Inl err \<Rightarrow> Inl err | Inr list \<Rightarrow> Inr list))"

text \<open>
  \<open>yaml.Unmarshal\<close> into a \<open>Frontmatter\<close>: the library parses the text and fills the
  plain fields (\<open>decodePlain\<close>: an error, or the record and the node under the key
  \<open>output\<close> when the document has a non-null one), and hands that node to
  \<open>OutputField.UnmarshalYAML\<close>, whose error fails the whole decoding.
\<close>

record yaml_lib =
  decodePlain :: "string \<Rightarrow> string + Frontmatter \<times> yaml_node option"
  decodeStrings :: "yaml_node \<Rightarrow> string + string list"

definition yaml_Unmarshal :: "yaml_lib \<Rightarrow> string \<Rightarrow> string + Frontmatter" where
  "yaml_Unmarshal y text =
     (case decodePlain y text of
        Inl err \<Rightarrow> Inl err
      | Inr (fm, None) \<Rightarrow> Inr fm
      | Inr (fm, Some node) \<Rightarrow>
          (case UnmarshalYAML (decodeStrings y) node of
             Inl err \<Rightarrow> Inl err
           | Inr out \<Rightarrow> Inr (fm\<lparr>Output := out\<rparr>)))"

definition trimLeadingNewline :: "string \<Rightarrow> string" where
  "trimLeadingNewline value =
     (if prefix [CHR 0x0D, CHR 0x0A] value then TrimPrefix value [CHR 0x0D, CHR 0x0A]
      else if prefix [CHR 0x0A] value then TrimPrefix value [CHR 0x0A]
      else value)"

text \<open>
  \<open>ParsePrompt\<close>: \<open>Inl\<close> the error, \<open>Inr\<close> the frontmatter and the body (on an error the
  Go function returns an empty body and a frontmatter no caller reads).
\<close>

definition ParsePrompt :: "yaml_lib \<Rightarrow> string \<Rightarrow> string + Frontmatter \<times> string" where
  "ParsePrompt y content =
     (if \<not> prefix ''---'' content then Inl ''frontmatter delimiter not found''
      else
        case SplitN2 (drop (length ''---'') content) ''---'' of
          p0 # p1 # rest \<Rightarrow>
            (case yaml_Unmarshal y p0 of
               Inl err \<Rightarrow> Inl (''parse frontmatter: '' @ err)
             | Inr frontmatter \<Rightarrow>
                 let f1 = (if Advance frontmatter = [] then frontmatter\<lparr>Advance := AdvanceAuto\<rparr>
                           else frontmatter);
                     f2 = (if length (Tools f1) = 0 \<and> length (MCP f1) > 0
                           then f1\<lparr>Tools := MCP f1\<rparr> else f1)
                 in Inr (f2, trimLeadingNewline p1))
        | _ \<Rightarrow> Inl ''frontmatter end delimiter not found'')"

text \<open>
  Example values: a YAML library that knows one frontmatter text (with a scalar
  \<open>output\<close>, an \<open>mcp\<close> list and neither \<open>tools\<close> nor \<open>advance\<close>) and rejects every other.
\<close>

definition exampleFrontmatterText :: string where
  "exampleFrontmatterText =
     [CHR 0x0A] @ ''step: 1.1'' @ [CHR 0x0A] @ ''output: docs/a.md'' @ [CHR 0x0A] @
     ''mcp: [eda]'' @ [CHR 0x0A]"

definition exampleDecoded :: Frontmatter where
  "exampleDecoded =
     \<lparr> Step = ''1.1'', Name = [], Title = [], Description = [], Output = [],
       OutputTemplate = [], Input = [], Tools = [], MCP = [''eda''], Next = [],
       Fallback = [], Advance = [], Model_f = [], MaxOutputTokens = 0 \<rparr>"

definition exampleYaml :: yaml_lib where
  "exampleYaml =
     \<lparr> decodePlain = (\<lambda>text. if text = exampleFrontmatterText
                              then Inr (exampleDecoded, Some \<lparr>Kind = ScalarNode, Value = ''docs/a.md''\<rparr>)
                              else Inl ''yaml: unexpected input''),
       decodeStrings = (\<lambda>node. Inl ''yaml: cannot unmarshal into []string'') \<rparr>"

definition examplePrompt :: string where
  "examplePrompt = ''---'' @ exampleFrontmatterText @ ''---'' @ [CHR 0x0A] @ ''Write the outline.''"

section \<open>flow/middleware.go: the middleware chain's post hooks\<close>

text \<open>
  A \<open>graph.AfterNodeCallback\<close> takes the node's result (an \<open>any\<close>, \<open>None\<close> for nil) and
  the node error, and returns a result and an error. What a callback does besides (to
  the graph state it is handed, to a tracker, to a log) is a change of the world \<open>'w\<close>,
  which is passed through the calls in the order they happen.
\<close>

type_synonym ('w, 'r) AfterNodeCallback =
  "'w \<Rightarrow> 'r option \<Rightarrow> go_error option \<Rightarrow> ('r option \<times> go_error option) \<times> 'w"

text \<open>
  A \<open>pipeline.Middleware\<close> is an interface value; of its two methods the post-node one
  is modelled: given the step id and the step it returns a callback or nil.
\<close>

type_synonym ('w, 'r) Middleware =
  "string \<Rightarrow> StepDefinition \<Rightarrow> ('w, 'r) AfterNodeCallback option"

text \<open>The loop in the closure that \<open>MiddlewareChain.WrapPostNode\<close> returns.\<close>

fun runPostCallbacks ::
  "('w, 'r) AfterNodeCallback list \<Rightarrow> ('w, 'r) AfterNodeCallback" where
  "runPostCallbacks [] w result nodeErr = ((result, None), w)"
| "runPostCallbacks (cb # callbacks) w result nodeErr =
     (case cb w result nodeErr of
        ((r, Some err), w') \<Rightarrow> ((None, Some err), w')
      | ((r, None), w') \<Rightarrow>
          runPostCallbacks callbacks w' (case r of Some v \<Rightarrow> Some v | None \<Rightarrow> result) nodeErr)"

text \<open>The non-nil callbacks of the chain's members, in insertion order.\<close>

definition postCallbacks ::
  "('w, 'r) Middleware list \<Rightarrow> string \<Rightarrow> StepDefinition \<Rightarrow> ('w, 'r) AfterNodeCallback list" where
  "postCallbacks items stepID step =
     concat (map (\<lambda>mw. case mw stepID step of Some cb \<Rightarrow> [cb] | None \<Rightarrow> []) items)"

definition WrapPostNode ::
  "('w, 'r) Middleware list \<Rightarrow> string \<Rightarrow> StepDefinition \<Rightarrow> ('w, 'r) AfterNodeCallback option" where
  "WrapPostNode items stepID step =
     (let callbacks = postCallbacks items stepID step
      in if length callbacks = 0 then None else Some (runPostCallbacks callbacks))"

text \<open>
  The three concrete middlewares. Compression and prompt injection have no post hook.
  The artifact recorder's hook hands a non-nil node error back, and otherwise records
  every output of the step; \<open>recordCompleted\<close> is the tracker call's effect on the world.
\<close>

definition CompressionMiddleware_WrapPostNode :: "('w, 'r) Middleware" where
  "CompressionMiddleware_WrapPostNode stepID step = None"

definition PromptInjectionMiddleware_WrapPostNode :: "('w, 'r) Middleware" where
  "PromptInjectionMiddleware_WrapPostNode stepID step = None"

definition ArtifactRecordMiddleware_WrapPostNode ::
  "(string \<Rightarrow> string \<Rightarrow> string \<Rightarrow> 'w \<Rightarrow> 'w) \<Rightarrow> ('w, 'r) Middleware" where
  "ArtifactRecordMiddleware_WrapPostNode recordCompleted stepID step =
     (if length (Output (Frontmatter step)) = 0 then None
      else Some (\<lambda>w result nodeErr.
        case nodeErr of
          Some err \<Rightarrow> ((None, Some err), w)
        | None \<Rightarrow>
            ((None, None),
             foldl (\<lambda>w' output. recordCompleted stepID (Title (Frontmatter step)) output w')
               w (Output (Frontmatter step)))))"

text \<open>
  Example values: the world is the list of hook names that have run. \<open>auditHook\<close> is a
  middleware whose post hook notes its name and returns \<open>(nil, nil)\<close> whatever the node
  error is; \<open>failingHook\<close> notes its name and returns an error of its own.
\<close>

definition auditHook :: "string \<Rightarrow> (string list, 'r) Middleware" where
  "auditHook name stepID step = Some (\<lambda>w result nodeErr. ((None, None), w @ [name]))"

definition failingHook :: "string \<Rightarrow> (string list, 'r) Middleware" where
  "failingHook name stepID step =
     Some (\<lambda>w result nodeErr. ((None, Some (ErrorString (name @ '' failed''))), w @ [name]))"

definition exampleStep :: StepDefinition where
  "exampleStep =
     \<lparr> Path = ''prompts/1.1.md'',
       Frontmatter = exampleDecoded\<lparr>Output := [''docs/a.md'']\<rparr>,
       Body = ''Write the outline.'' \<rparr>"

section \<open>step/validate.go: reference validation\<close>

text \<open>
  \<open>ValidationError\<close> (its \<open>Message\<close> is written \<open>Message_v\<close>, the name \<open>Message\<close> being the
  chat message type).
\<close>

record ValidationError =
  StepID :: string
  Field :: string
  Reference :: string
  Message_v :: string

text \<open>
  \<open>known\<close> is a \<open>map[string]bool\<close> that only ever stores \<open>true\<close>; reading a missing key
  gives \<open>false\<close>. It is the function from keys to the value read.
\<close>

definition knownSteps :: "StepDefinition list \<Rightarrow> string \<Rightarrow> bool" where
  "knownSteps steps = foldl (\<lambda>known s. known(Step (Frontmatter s) := True)) (\<lambda>id. False) steps"

text \<open>
  The inner loop over one step's fallback map, ranged over in the order of its entries,
  and the body of the second loop for one step: the records they append, in order.
\<close>

fun checkFallback :: "(string \<Rightarrow> bool) \<Rightarrow> string \<Rightarrow> (string \<times> string) list \<Rightarrow> ValidationError list" where
  "checkFallback known sid [] = []"
| "checkFallback known sid ((code, target) # entries) =
     (if target = [] then checkFallback known sid entries
      else if \<not> known target
        then \<lparr> StepID = sid, Field = ''fallback.'' @ code, Reference = target,
                Message_v = ''target step does not exist'' \<rparr> # checkFallback known sid entries
      else checkFallback known sid entries)"

definition checkStep :: "(string \<Rightarrow> bool) \<Rightarrow> StepDefinition \<Rightarrow> ValidationError list" where
  "checkStep known s =
     (let sid = Step (Frontmatter s);
          next = Next (Frontmatter s)
      in (if next \<noteq> [] then
            (if \<not> known next
             then [\<lparr> StepID = sid, Field = ''next'', Reference = next,
                     Message_v = ''target step does not exist'' \<rparr>]
             else []) @
            (if next = sid
             then [\<lparr> StepID = sid, Field = ''next'', Reference = next,
                     Message_v = ''self-loop detected'' \<rparr>]
             else [])
          else []) @
         checkFallback known sid (Fallback (Frontmatter s)))"

text \<open>
  \<open>steps\<close> is a slice of pointers: \<open>None\<close> is a nil pointer, which the first loop
  dereferences. A nil result slice is the empty list.
\<close>

definition ValidateReferences :: "StepDefinition option list \<Rightarrow> ValidationError list outcome" where
  "ValidateReferences steps =
     (case those steps of
        None \<Rightarrow> Panic
      | Some ss \<Rightarrow> Ok (concat (map (checkStep (knownSteps ss)) ss)))"

text \<open>
  The three kinds of violation, in the words of the specification; \<open>loaded ss\<close> is the
  set of loaded step ids.
\<close>

definition loaded :: "StepDefinition list \<Rightarrow> string set" where
  "loaded ss = set (map (\<lambda>s. Step (Frontmatter s)) ss)"

definition danglingNext :: "StepDefinition list \<Rightarrow> StepDefinition \<Rightarrow> bool" where
  "danglingNext ss s = (Next (Frontmatter s) \<noteq> [] \<and> Next (Frontmatter s) \<notin> loaded ss)"

definition selfLoop :: "StepDefinition \<Rightarrow> bool" where
  "selfLoop s = (Next (Frontmatter s) \<noteq> [] \<and> Next (Frontmatter s) = Step (Frontmatter s))"

definition danglingFallbacks :: "StepDefinition list \<Rightarrow> StepDefinition \<Rightarrow> (string \<times> string) list" where
  "danglingFallbacks ss s =
     filter (\<lambda>(code, target). target \<noteq> [] \<and> target \<notin> loaded ss) (Fallback (Frontmatter s))"

definition violations :: "StepDefinition list \<Rightarrow> StepDefinition \<Rightarrow> nat" where
  "violations ss s =
     (if danglingNext ss s then 1 else 0) + (if selfLoop s then 1 else 0) +
     length (danglingFallbacks ss s)"

text \<open>A step with the given id, next and fallback entries, and nothing else.\<close>

definition stepOf :: "string \<Rightarrow> string \<Rightarrow> (string \<times> string) list \<Rightarrow> StepDefinition" where
  "stepOf sid next fallback =
     \<lparr> Path = [],
       Frontmatter =
         \<lparr> Step = sid, Name = [], Title = [], Description = [], Output = [],
           OutputTemplate = [], Input = [], Tools = [], MCP = [], Next = next,
           Fallback = fallback, Advance = [], Model_f = [], MaxOutputTokens = 0 \<rparr>,
       Body = [] \<rparr>"

section \<open>memory/tracker.go: the artifact tracker, on an explicit store\<close>

text \<open>
  \<open>ArtifactInfo\<close> (\<open>StepID\<close> and \<open>Title\<close> are written \<open>StepID_a\<close> and \<open>Title_a\<close>, the names
  being taken); \<open>time.Time\<close> is an opaque integer. All its fields are plain values, so
  copying the struct copies everything a caller can reach through it.
\<close>

record ArtifactInfo =
  StepID_a :: string
  Title_a :: string
  FilePath :: string
  Status :: string
  Summary :: string
  LineCount :: go_int
  CreatedAt :: int

text \<open>
  The tracker's map holds pointers and is itself a reference, and what callers may
  rely on is a matter of aliasing, so the store is explicit: \<open>infos\<close> are the \<open>ArtifactInfo\<close> cells that
  pointers point to, \<open>tables\<close> the \<open>map[string]*ArtifactInfo\<close> values (their entries in
  range order), and \<open>free\<close> the next address the allocator hands out.
\<close>

record heap =
  infos :: "nat \<rightharpoonup> ArtifactInfo"
  tables :: "nat \<rightharpoonup> (string \<times> nat) list"
  free :: nat

definition emptyHeap :: heap where
  "emptyHeap = \<lparr> infos = Map.empty, tables = Map.empty, free = 0 \<rparr>"

text \<open>The \<open>pipeline.FileSystem\<close> interface: an error is \<open>None\<close>.\<close>

record FileInfo =
  IsDir :: bool
  ModTime :: int

record FileSystem =
  Stat :: "string \<Rightarrow> FileInfo option"
  ReadFile :: "string \<Rightarrow> string option"

text \<open>\<open>FileTracker\<close>: \<open>data\<close> is the address of its map; the mutex is left out.\<close>

record FileTracker =
  fs :: FileSystem
  data :: nat

definition NewFileTracker :: "FileSystem \<Rightarrow> heap \<Rightarrow> FileTracker \<times> heap" where
  "NewFileTracker fsys h =
     (\<lparr> fs = fsys, data = free h \<rparr>,
      h\<lparr> tables := (tables h)(free h \<mapsto> []), free := Suc (free h) \<rparr>)"

definition countLines :: "FileTracker \<Rightarrow> string \<Rightarrow> go_int" where
  "countLines t path =
     (case ReadFile (fs t) path of
        None \<Rightarrow> 0
      | Some bytes \<Rightarrow>
          of_nat (length (filter (\<lambda>b. b = CHR 0x0A) bytes) +
                  (if length bytes > 0 \<and> last bytes \<noteq> CHR 0x0A then 1 else 0)))"

text \<open>
  \<open>RecordCompleted\<close>: the new record is allocated and its address stored under the step
  id (an assignment into a nil map would panic).
\<close>

definition RecordCompleted ::
  "FileTracker \<Rightarrow> string \<Rightarrow> string \<Rightarrow> string \<Rightarrow> heap \<Rightarrow> (bool \<times> heap) outcome" where
  "RecordCompleted t stepID title outputPath h =
     (case Stat (fs t) outputPath of
        None \<Rightarrow> Ok (False, h)
      | Some info \<Rightarrow>
          if IsDir info then Ok (False, h)
          else
            let lineCount = countLines t outputPath;
                a = free h;
                h1 = h\<lparr> infos := (infos h)(a \<mapsto>
                          \<lparr> StepID_a = stepID, Title_a = title, FilePath = outputPath,
                            Status = ''completed'', Summary = [], LineCount = lineCount,
                            CreatedAt = ModTime info \<rparr>),
                        free := Suc a \<rparr>
            in case tables h1 (data t) of
                 None \<Rightarrow> Panic
               | Some m \<Rightarrow>
                   Ok (True, h1\<lparr> tables := (tables h1)(data t \<mapsto> AList.update stepID a m) \<rparr>))"

text \<open>
  \<open>GetArtifact\<close>: \<open>cp := *a; return &cp\<close> allocates a cell with the record's content and
  returns its address; \<open>None\<close> is the nil pointer.
\<close>

definition GetArtifact :: "FileTracker \<Rightarrow> string \<Rightarrow> heap \<Rightarrow> (nat option \<times> heap) outcome" where
  "GetArtifact t stepID h =
     (case tables h (data t) of
        None \<Rightarrow> Ok (None, h)
      | Some m \<Rightarrow>
          (case map_of m stepID of
             None \<Rightarrow> Ok (None, h)
           | Some a \<Rightarrow>
               (case infos h a of
                  None \<Rightarrow> Panic
                | Some info \<Rightarrow>
                    Ok (Some (free h),
                        h\<lparr> infos := (infos h)(free h \<mapsto> info), free := Suc (free h) \<rparr>))))"

text \<open>
  \<open>GetAll\<close>: a new map is made, and the loop copies every record into a new cell and
  enters the cell's address under the same key.
\<close>

fun copyEntries :: "(string \<times> nat) list \<Rightarrow> heap \<Rightarrow> ((string \<times> nat) list \<times> heap) outcome" where
  "copyEntries [] h = Ok ([], h)"
| "copyEntries ((k, v) # entries) h =
     (case infos h v of
        None \<Rightarrow> Panic
      | Some info \<Rightarrow>
          (case copyEntries entries
                  (h\<lparr> infos := (infos h)(free h \<mapsto> info), free := Suc (free h) \<rparr>) of
             Ok (out, h') \<Rightarrow> Ok ((k, free h) # out, h')
           | Err e \<Rightarrow> Err e
           | Panic \<Rightarrow> Panic))"

definition GetAll :: "FileTracker \<Rightarrow> heap \<Rightarrow> (nat \<times> heap) outcome" where
  "GetAll t h =
     (let q = free h;
          h1 = h\<lparr> tables := (tables h)(q \<mapsto> []), free := Suc q \<rparr>
      in case copyEntries (case tables h (data t) of None \<Rightarrow> [] | Some m \<Rightarrow> m) h1 of
           Ok (out, h2) \<Rightarrow> Ok (q, h2\<lparr> tables := (tables h2)(q \<mapsto> out) \<rparr>)
         | Err e \<Rightarrow> Err e
         | Panic \<Rightarrow> Panic)"

text \<open>
  What a caller reads through a returned pointer and through a returned map.
\<close>

definition readArtifact :: "FileTracker \<Rightarrow> string \<Rightarrow> heap \<Rightarrow> ArtifactInfo option outcome" where
  "readArtifact t stepID h =
     (case GetArtifact t stepID h of
        Ok (None, h') \<Rightarrow> Ok None
      | Ok (Some p, h') \<Rightarrow> Ok (infos h' p)
      | Err e \<Rightarrow> Err e
      | Panic \<Rightarrow> Panic)"

definition readAll :: "FileTracker \<Rightarrow> heap \<Rightarrow> (string \<rightharpoonup> ArtifactInfo) outcome" where
  "readAll t h =
     (case GetAll t h of
        Ok (q, h') \<Rightarrow>
          Ok (\<lambda>k. case map_of (case tables h' q of None \<Rightarrow> [] | Some m \<Rightarrow> m) k of
                     None \<Rightarrow> None
                   | Some p \<Rightarrow> infos h' p)
      | Err e \<Rightarrow> Err e
      | Panic \<Rightarrow> Panic)"

text \<open>
  A client of the tracker. It keeps the pointers and maps the tracker returns to it
  (\<open>heldInfos\<close> also holds the pointers inside returned maps), and besides calling the
  tracker it may overwrite any cell it holds a pointer to and change any map it holds
  in any way. \<open>WriteInfo i v\<close> assigns \<open>v\<close> through the \<open>i\<close>-th held pointer and
  \<open>WriteTable i m\<close> leaves the \<open>i\<close>-th held map with the entries \<open>m\<close>; with no such pointer
  or map they do nothing.
\<close>

record client =
  heldInfos :: "nat list"
  heldTables :: "nat list"

datatype operation =
    Record string string string
  | Get string
  | GetAllOp
  | WriteInfo nat ArtifactInfo
  | WriteTable nat "(string \<times> nat) list"

fun exec :: "FileTracker \<Rightarrow> operation \<Rightarrow> heap \<times> client \<Rightarrow> (heap \<times> client) outcome" where
  "exec t (Record stepID title outputPath) (h, c) =
     (case RecordCompleted t stepID title outputPath h of
        Ok (found, h') \<Rightarrow> Ok (h', c)
      | Err e \<Rightarrow> Err e
      | Panic \<Rightarrow> Panic)"
| "exec t (Get stepID) (h, c) =
     (case GetArtifact t stepID h of
        Ok (None, h') \<Rightarrow> Ok (h', c)
      | Ok (Some p, h') \<Rightarrow> Ok (h', c\<lparr> heldInfos := heldInfos c @ [p] \<rparr>)
      | Err e \<Rightarrow> Err e
      | Panic \<Rightarrow> Panic)"
| "exec t GetAllOp (h, c) =
     (case GetAll t h of
        Ok (q, h') \<Rightarrow>
          Ok (h', c\<lparr> heldInfos := heldInfos c @
                                   map snd (case tables h' q of None \<Rightarrow> [] | Some m \<Rightarrow> m),
                      heldTables := heldTables c @ [q] \<rparr>)
      | Err e \<Rightarrow> Err e
      | Panic \<Rightarrow> Panic)"
| "exec t (WriteInfo i v) (h, c) =
     (if i < length (heldInfos c)
      then Ok (h\<lparr> infos := (infos h)(heldInfos c ! i \<mapsto> v) \<rparr>, c)
      else Ok (h, c))"
| "exec t (WriteTable i m) (h, c) =
     (if i < length (heldTables c)
      then Ok (h\<lparr> tables := (tables h)(heldTables c ! i \<mapsto> m) \<rparr>, c)
      else Ok (h, c))"

fun run :: "FileTracker \<Rightarrow> operation list \<Rightarrow> heap \<times> client \<Rightarrow> (heap \<times> client) outcome" where
  "run t [] s = Ok s"
| "run t (op # ops) s =
     (case exec t op s of
        Ok s' \<Rightarrow> run t ops s'
      | Err e \<Rightarrow> Err e
      | Panic \<Rightarrow> Panic)"

definition isWrite :: "operation \<Rightarrow> bool" where
  "isWrite op = (case op of WriteInfo i v \<Rightarrow> True | WriteTable i m \<Rightarrow> True | _ \<Rightarrow> False)"

text \<open>
  The records a sequence of operations leaves in the tracker, as the documentation
  describes them: only \<open>RecordCompleted\<close> on an existing regular file stores one, and
  the last record of a step id wins.
\<close>

definition recordOf :: "FileTracker \<Rightarrow> string \<Rightarrow> string \<Rightarrow> string \<Rightarrow> FileInfo \<Rightarrow> ArtifactInfo" where
  "recordOf t stepID title outputPath info =
     \<lparr> StepID_a = stepID, Title_a = title, FilePath = outputPath, Status = ''completed'',
       Summary = [], LineCount = countLines t outputPath, CreatedAt = ModTime info \<rparr>"

fun recorded ::
  "FileTracker \<Rightarrow> operation list \<Rightarrow> (string \<rightharpoonup> ArtifactInfo) \<Rightarrow> (string \<rightharpoonup> ArtifactInfo)" where
  "recorded t [] r = r"
| "recorded t (Record stepID title outputPath # ops) r =
     (case Stat (fs t) outputPath of
        None \<Rightarrow> recorded t ops r
      | Some info \<Rightarrow>
          if IsDir info then recorded t ops r
          else recorded t ops (r(stepID \<mapsto> recordOf t stepID title outputPath info)))"
| "recorded t (op # ops) r = recorded t ops r"

text \<open>
  The tracker's content as a map from step ids to records, and the separation the
  operations maintain: the tracker's map and the cells it points to are allocated, and
  no pointer or map the client holds is one of them.
\<close>

definition view :: "FileTracker \<Rightarrow> heap \<Rightarrow> (string \<rightharpoonup> ArtifactInfo)" where
  "view t h =
     (\<lambda>k. case map_of (case tables h (data t) of None \<Rightarrow> [] | Some m \<Rightarrow> m) k of
            None \<Rightarrow> None
          | Some a \<Rightarrow> infos h a)"

definition tracker_inv :: "FileTracker \<Rightarrow> heap \<times> client \<Rightarrow> bool" where
  "tracker_inv t s =
     (case s of (h, c) \<Rightarrow>
        data t < free h \<and>
        (\<exists>m. tables h (data t) = Some m \<and>
             (\<forall>a\<in>snd ` set m. a < free h \<and> infos h a \<noteq> None \<and> a \<notin> set (heldInfos c))) \<and>
        (\<forall>p\<in>set (heldInfos c). p < free h) \<and>
        (\<forall>q\<in>set (heldTables c). q < free h \<and> q \<noteq> data t))"

text \<open>
  Example values: a file system with one regular file of two lines, a record a client
  writes over the copies it holds, and a session in which the client records the step,
  fetches it, overwrites the copy, fetches everything, empties the returned map and
  overwrites the copy that map pointed to.
\<close>

definition exampleFS :: FileSystem where
  "exampleFS =
     \<lparr> Stat = (\<lambda>path. if path = ''docs/a.md'' then Some \<lparr> IsDir = False, ModTime = 7 \<rparr> else None),
       ReadFile = (\<lambda>path. if path = ''docs/a.md'' then Some (''a'' @ [CHR 0x0A] @ ''b'') else None) \<rparr>"

definition tampered :: ArtifactInfo where
  "tampered =
     \<lparr> StepID_a = ''9.9'', Title_a = ''overwritten'', FilePath = ''elsewhere'', Status = ''pending'',
       Summary = ''changed by the caller'', LineCount = 0, CreatedAt = 0 \<rparr>"

definition exampleSession :: "operation list" where
  "exampleSession =
     [Record ''1.1'' ''Outline'' ''docs/a.md'', Get ''1.1'', WriteInfo 0 tampered, GetAllOp,
      WriteTable 0 [], WriteInfo 1 tampered]"

section \<open>Token monitor: results\<close>

lemma RecordUsage_totals:
  "totalPromptTokens (RecordUsage tm u) = totalPromptTokens tm + PromptTokens u"
  "totalCompletionTokens (RecordUsage tm u) = totalCompletionTokens tm + CompletionTokens u"
  "totalTokens (RecordUsage tm u) = totalTokens tm + TotalTokens u"
  by (simp_all add: RecordUsage_def Let_def)

lemma RecordUsages_identity:
  "\<forall>u\<in>set us. TotalTokens u = PromptTokens u + CompletionTokens u \<Longrightarrow>
   totalTokens tm = totalPromptTokens tm + totalCompletionTokens tm \<Longrightarrow>
   totalTokens (RecordUsages tm us) =
     totalPromptTokens (RecordUsages tm us) + totalCompletionTokens (RecordUsages tm us)"
  unfolding RecordUsages_def
proof (induction us arbitrary: tm)
  case Nil
  then show ?case by simp
next
  case (Cons u us)
  have "totalTokens (RecordUsage tm u) =
        totalPromptTokens (RecordUsage tm u) + totalCompletionTokens (RecordUsage tm u)"
    using Cons.prems by (simp add: RecordUsage_totals)
  with Cons show ?case by simp
qed

lemma sint_sub_no_overflow:
  fixes x y :: go_int
  assumes "- (2 ^ 63) \<le> sint x - sint y" "sint x - sint y < 2 ^ 63"
  shows "sint (x - y) = sint x - sint y"
  using assms by (simp add: sint_word_ariths signed_take_bit_int_eq_self)

text \<open>
  C1 (amended). Part 1: starting from a fresh monitor, after any sequence of
  \<open>RecordUsage\<close> calls whose records each carry \<open>TotalTokens = PromptTokens +
  CompletionTokens\<close>, the cumulative total equals the cumulative prompt count plus the
  cumulative completion count. Part 2: when the saved delta \<open>b - a\<close> is positive (and
  neither it nor the two subtractions overflow the 64-bit \<open>int\<close>), \<open>OnCompression b a\<close>
  leaves \<open>totalTokens = max (totalTokens - (b - a)) 0\<close> and
  \<open>totalPromptTokens = max (totalPromptTokens - (b - a)) 0\<close>, does not touch the
  completion count and sets \<open>pendingUpdate\<close>. Part 3: when the saved delta is not
  positive, \<open>OnCompression\<close> returns early and changes nothing, the flag included.
\<close>

theorem monitor_cumulative_identity:
  fixes tm :: Monitor and b a :: go_int
  shows
    "((\<forall>u\<in>set us. TotalTokens u = PromptTokens u + CompletionTokens u) \<longrightarrow>
        totalTokens (RecordUsages (NewMonitor mx) us) =
          totalPromptTokens (RecordUsages (NewMonitor mx) us) +
          totalCompletionTokens (RecordUsages (NewMonitor mx) us)) \<and>
     (0 < sint b - sint a \<and> sint b - sint a < 2 ^ 63 \<and>
      - (2 ^ 63) \<le> sint (totalTokens tm) - (sint b - sint a) \<and>
      - (2 ^ 63) \<le> sint (totalPromptTokens tm) - (sint b - sint a) \<longrightarrow>
        sint (totalTokens (OnCompression tm b a)) =
          max (sint (totalTokens tm) - (sint b - sint a)) 0 \<and>
        sint (totalPromptTokens (OnCompression tm b a)) =
          max (sint (totalPromptTokens tm) - (sint b - sint a)) 0 \<and>
        totalCompletionTokens (OnCompression tm b a) = totalCompletionTokens tm \<and>
        pendingUpdate (OnCompression tm b a)) \<and>
     (b - a \<le>s 0 \<longrightarrow> OnCompression tm b a = tm)"
proof (intro conjI impI)
  assume "\<forall>u\<in>set us. TotalTokens u = PromptTokens u + CompletionTokens u"
  then show "totalTokens (RecordUsages (NewMonitor mx) us) =
          totalPromptTokens (RecordUsages (NewMonitor mx) us) +
          totalCompletionTokens (RecordUsages (NewMonitor mx) us)"
    by (rule RecordUsages_identity) (simp add: NewMonitor_def)
next
  assume "b - a \<le>s 0"
  then show "OnCompression tm b a = tm"
    by (simp add: OnCompression_def)
next
  assume h: "0 < sint b - sint a \<and> sint b - sint a < 2 ^ 63 \<and>
      - (2 ^ 63) \<le> sint (totalTokens tm) - (sint b - sint a) \<and>
      - (2 ^ 63) \<le> sint (totalPromptTokens tm) - (sint b - sint a)"
  have saved: "sint (b - a) = sint b - sint a"
    using h by (intro sint_sub_no_overflow) auto
  have pos: "\<not> (b - a \<le>s 0)"
    using h saved by (simp add: word_sle_eq)
  have tlt: "sint (totalTokens tm) < 2 ^ 63" and plt: "sint (totalPromptTokens tm) < 2 ^ 63"
    using sint_lt [of "totalTokens tm"] sint_lt [of "totalPromptTokens tm"] by simp_all
  have t: "sint (totalTokens tm - (b - a)) = sint (totalTokens tm) - (sint b - sint a)"
    using h tlt saved by (subst sint_sub_no_overflow) auto
  have p: "sint (totalPromptTokens tm - (b - a)) =
           sint (totalPromptTokens tm) - (sint b - sint a)"
    using h plt saved by (subst sint_sub_no_overflow) auto
  show "sint (totalTokens (OnCompression tm b a)) =
          max (sint (totalTokens tm) - (sint b - sint a)) 0"
    using pos t by (simp add: OnCompression_def Let_def word_sless_alt max_def)
  show "sint (totalPromptTokens (OnCompression tm b a)) =
          max (sint (totalPromptTokens tm) - (sint b - sint a)) 0"
    using pos p by (simp add: OnCompression_def Let_def word_sless_alt max_def)
  show "totalCompletionTokens (OnCompression tm b a) = totalCompletionTokens tm"
    using pos by (simp add: OnCompression_def Let_def)
  show "pendingUpdate (OnCompression tm b a)"
    using pos by (simp add: OnCompression_def Let_def)
qed

text \<open>The three parts at concrete inputs (the monitor test's own numbers for part 2).\<close>

theorem monitor_cumulative_identity_witness:
  "totalTokens (RecordUsages (NewMonitor 100000) [usage_of 100 50 150, usage_of 7 3 10]) =
     totalPromptTokens (RecordUsages (NewMonitor 100000) [usage_of 100 50 150, usage_of 7 3 10]) +
     totalCompletionTokens (RecordUsages (NewMonitor 100000) [usage_of 100 50 150, usage_of 7 3 10]) \<and>
   sint (totalTokens (OnCompression (RecordUsage (NewMonitor 100000) (usage_of 5000 1000 6000)) 5000 2000)) = 3000 \<and>
   sint (totalPromptTokens (OnCompression (RecordUsage (NewMonitor 100000) (usage_of 5000 1000 6000)) 5000 2000)) = 2000 \<and>
   pendingUpdate (OnCompression (RecordUsage (NewMonitor 100000) (usage_of 5000 1000 6000)) 5000 2000) \<and>
   OnCompression (NewMonitor 100000) 2000 5000 = NewMonitor 100000"
  using monitor_cumulative_identity
    [of "[usage_of 100 50 150, usage_of 7 3 10]" 100000 5000 2000
        "RecordUsage (NewMonitor 100000) (usage_of 5000 1000 6000)"]
    monitor_cumulative_identity [of "[]" 0 2000 5000 "NewMonitor 100000"]
  by (simp add: usage_of_def RecordUsage_totals NewMonitor_def word_sle_eq)

text \<open>
  C1 as stated fails in both halves. A record whose \<open>TotalTokens\<close> is not the sum of its
  other two counts (\<open>RecordUsage\<close> adds the three fields independently) breaks the
  identity; \<open>OnCompression 5 5\<close> returns before the flag is set; and
  \<open>OnCompression 2000 5000\<close> leaves the total at 150 where the claimed formula gives 3150.
\<close>

theorem monitor_cumulative_identity_counterexample:
  "totalTokens (RecordUsages (NewMonitor 1000) [usage_of 1 1 5]) \<noteq>
     totalPromptTokens (RecordUsages (NewMonitor 1000) [usage_of 1 1 5]) +
     totalCompletionTokens (RecordUsages (NewMonitor 1000) [usage_of 1 1 5]) \<and>
   \<not> pendingUpdate (OnCompression (NewMonitor 1000) 5 5) \<and>
   sint (totalTokens (OnCompression (RecordUsage (NewMonitor 1000) (usage_of 100 50 150)) 2000 5000))
     \<noteq> max (150 - (2000 - 5000)) 0"
  by (simp add: RecordUsages_def RecordUsage_def usage_of_def NewMonitor_def OnCompression_def
      Let_def word_sle_eq maxUsageHistory_def)

section \<open>Compressor and summary messages: results\<close>

lemma sint_double_no_overflow:
  fixes k :: go_int
  assumes "0 \<le> sint k" "sint k < 2 ^ 62"
  shows "sint (k * 2) = 2 * sint k"
proof -
  have "sint (k * 2) = signed_take_bit 63 (sint k * sint (2 :: go_int))"
    by (simp add: sint_word_ariths)
  also have "sint (2 :: go_int) = 2" by simp
  also have "signed_take_bit 63 (sint k * 2) = sint k * 2"
    using assms by (intro signed_take_bit_int_eq_self) auto
  finally show ?thesis by simp
qed

lemma IsSummaryMessage_Format: "IsSummaryMessage (Content (FormatSummaryMessage s))"
  by (simp add: IsSummaryMessage_def FormatSummaryMessage_def SummaryPrefix_def summaryTag_def)

lemma Role_Format: "Role (FormatSummaryMessage s) = RoleSystem"
  by (simp add: FormatSummaryMessage_def)

lemma filter_system_kept:
  "filter (\<lambda>m. Role m = RoleSystem \<and> P m) (drop n (conversationMsgs_of xs)) = []"
  by (auto simp: conversationMsgs_of_def filter_empty_conv dest: in_set_dropD)

lemma filter_system_preserved:
  "filter (\<lambda>m. Role m = RoleSystem \<and> \<not> IsSummaryMessage (Content m))
     (filter (\<lambda>sm. \<not> IsSummaryMessage (Content sm)) (systemMsgs_of xs)) =
   filter (\<lambda>m. Role m = RoleSystem \<and> \<not> IsSummaryMessage (Content m)) xs"
  by (auto simp: systemMsgs_of_def intro: filter_cong)

lemma filter_summary_preserved:
  "filter (\<lambda>m. Role m = RoleSystem \<and> IsSummaryMessage (Content m))
     (filter (\<lambda>sm. \<not> IsSummaryMessage (Content sm)) (systemMsgs_of xs)) = []"
  by (auto simp: systemMsgs_of_def filter_empty_conv)

lemma length_conversationMsgs_le: "length (conversationMsgs_of xs) \<le> length xs"
  by (simp add: conversationMsgs_of_def)

lemma compress_rewrites:
  assumes k: "0 < sint (keepRecentTurns c)" "sint (keepRecentTurns c) < 2 ^ 62"
    and more: "2 * sint (keepRecentTurns c) < int (length (conversationMsgs_of (elems msgs)))"
    and llm: "callSummarize c (concat (map convLine
                (take (length (conversationMsgs_of (elems msgs)) - nat (2 * sint (keepRecentTurns c)))
                   (conversationMsgs_of (elems msgs))))) = Inr summary"
  shows "compress c newArr msgs =
           Ok \<lparr> arr = newArr,
                elems = filter (\<lambda>sm. \<not> IsSummaryMessage (Content sm)) (systemMsgs_of (elems msgs)) @
                        [FormatSummaryMessage summary] @
                        drop (length (conversationMsgs_of (elems msgs)) - nat (2 * sint (keepRecentTurns c)))
                          (conversationMsgs_of (elems msgs)) \<rparr>"
proof -
  have d: "sint (keepRecentTurns c * 2) = 2 * sint (keepRecentTurns c)"
    using k by (intro sint_double_no_overflow) auto
  have "1 < length (elems msgs)"
    using more k length_conversationMsgs_le [of "elems msgs"] by linarith
  then show ?thesis
    using more k llm by (simp add: compress_def Let_def d)
qed

lemma compress_keeps:
  assumes k: "0 < sint (keepRecentTurns c)" "sint (keepRecentTurns c) < 2 ^ 62"
    and few: "int (length (conversationMsgs_of (elems msgs))) \<le> 2 * sint (keepRecentTurns c)"
  shows "compress c newArr msgs = Ok msgs"
proof -
  have d: "sint (keepRecentTurns c * 2) = 2 * sint (keepRecentTurns c)"
    using k by (intro sint_double_no_overflow) auto
  show ?thesis
    using few by (simp add: compress_def Let_def d)
qed

lemma compress_fails:
  assumes k: "0 < sint (keepRecentTurns c)" "sint (keepRecentTurns c) < 2 ^ 62"
    and more: "2 * sint (keepRecentTurns c) < int (length (conversationMsgs_of (elems msgs)))"
    and llm: "callSummarize c (concat (map convLine
                (take (length (conversationMsgs_of (elems msgs)) - nat (2 * sint (keepRecentTurns c)))
                   (conversationMsgs_of (elems msgs))))) = Inl e"
  shows "compress c newArr msgs = Err e"
proof -
  have d: "sint (keepRecentTurns c * 2) = 2 * sint (keepRecentTurns c)"
    using k by (intro sint_double_no_overflow) auto
  have "1 < length (elems msgs)"
    using more k length_conversationMsgs_le [of "elems msgs"] by linarith
  then show ?thesis
    using more k llm by (simp add: compress_def Let_def d)
qed


lemma preservedSystem_rebuilt:
  "preservedSystem (preservedSystem msgs @ [FormatSummaryMessage s] @ keptConversation c msgs) =
   preservedSystem msgs"
  by (simp add: preservedSystem_def keptConversation_def filter_system_kept
      IsSummaryMessage_Format)

lemma summaries_rebuilt:
  "filter (\<lambda>m. Role m = RoleSystem \<and> IsSummaryMessage (Content m))
     (preservedSystem msgs @ [FormatSummaryMessage s] @ keptConversation c msgs) =
   [FormatSummaryMessage s]"
proof -
  have "filter (\<lambda>m. Role m = RoleSystem \<and> IsSummaryMessage (Content m))
          (preservedSystem msgs) = []"
    by (auto simp: preservedSystem_def filter_empty_conv)
  then show ?thesis
    by (simp add: keptConversation_def filter_system_kept IsSummaryMessage_Format Role_Format)
qed

lemma preservedSystem_alt:
  "filter (\<lambda>sm. \<not> IsSummaryMessage (Content sm)) (systemMsgs_of msgs) = preservedSystem msgs"
  by (simp add: systemMsgs_of_def preservedSystem_def)

lemma not_sle_zero: "(\<not> (w :: go_int) \<le>s 0) = (0 < sint w)"
  by (simp add: word_sle_eq not_le)

text \<open>
  C3 (amended). For a compressor as \<open>NewLLMCompressor\<close> builds it (at least one recent
  turn kept, and \<open>keepRecentTurns \<times> 2\<close> within the range of \<open>int\<close>) and a result array
  allocated apart from the input: when \<open>contextWindow > 0\<close>, \<open>currentTokens > 0\<close>, the ratio
  is not below the threshold, the list has more than \<open>keepRecentTurns \<times> 2\<close> non-system
  messages \<^emph>\<open>and the summarisation call succeeds\<close>, \<open>CompressIfNeeded\<close> returns, with
  \<open>didCompress = true\<close>, the list made of every system message that is not a prior
  summary (in order), the new summary message, and the
  \<open>min (keepRecentTurns \<times> 2) (number of non-system messages)\<close> most recent conversation
  messages; the only summary message among its system messages is the new one. In every
  other case, a failed summarisation call included, the original list is returned
  unchanged with \<open>didCompress = false\<close>.
\<close>

theorem compressor_rewrite_or_unchanged:
  assumes k: "0 < sint (keepRecentTurns c)" "sint (keepRecentTurns c) < 2 ^ 62"
    and fresh: "newArr \<noteq> arr msgs"
  shows
    "(0 < sint (contextWindow c) \<and> 0 < sint currentTokens \<and>
      \<not> belowThreshold c currentTokens \<and>
      2 * sint (keepRecentTurns c) < int (length (conversationMsgs_of (elems msgs))) \<and>
      callSummarize c (concat (map convLine (compressionTarget c (elems msgs)))) = Inr summary
      \<longrightarrow>
        CompressIfNeeded c newArr msgs currentTokens =
          Ok (\<lparr> arr = newArr,
                elems = preservedSystem (elems msgs) @ [FormatSummaryMessage summary] @
                        keptConversation c (elems msgs) \<rparr>, True) \<and>
        length (keptConversation c (elems msgs)) =
          min (nat (2 * sint (keepRecentTurns c))) (length (conversationMsgs_of (elems msgs))) \<and>
        preservedSystem (preservedSystem (elems msgs) @ [FormatSummaryMessage summary] @
                         keptConversation c (elems msgs)) = preservedSystem (elems msgs) \<and>
        filter (\<lambda>m. Role m = RoleSystem \<and> IsSummaryMessage (Content m))
          (preservedSystem (elems msgs) @ [FormatSummaryMessage summary] @
           keptConversation c (elems msgs)) = [FormatSummaryMessage summary]) \<and>
     (\<not> (0 < sint (contextWindow c) \<and> 0 < sint currentTokens \<and>
         \<not> belowThreshold c currentTokens \<and>
         2 * sint (keepRecentTurns c) < int (length (conversationMsgs_of (elems msgs))) \<and>
         (\<exists>s. callSummarize c (concat (map convLine (compressionTarget c (elems msgs)))) = Inr s))
      \<longrightarrow> CompressIfNeeded c newArr msgs currentTokens = Ok (msgs, False))"
proof (intro conjI impI)
  assume h: "0 < sint (contextWindow c) \<and> 0 < sint currentTokens \<and>
      \<not> belowThreshold c currentTokens \<and>
      2 * sint (keepRecentTurns c) < int (length (conversationMsgs_of (elems msgs))) \<and>
      callSummarize c (concat (map convLine (compressionTarget c (elems msgs)))) = Inr summary"
  have "compress c newArr msgs =
          Ok \<lparr> arr = newArr,
               elems = preservedSystem (elems msgs) @ [FormatSummaryMessage summary] @
                       keptConversation c (elems msgs) \<rparr>"
    using compress_rewrites [OF k, of msgs summary newArr] h
    by (simp add: compressionTarget_def keptConversation_def preservedSystem_alt)
  then show "CompressIfNeeded c newArr msgs currentTokens =
          Ok (\<lparr> arr = newArr,
                elems = preservedSystem (elems msgs) @ [FormatSummaryMessage summary] @
                        keptConversation c (elems msgs) \<rparr>, True)"
    using h fresh by (simp add: CompressIfNeeded_def not_sle_zero)
  show "length (keptConversation c (elems msgs)) =
          min (nat (2 * sint (keepRecentTurns c))) (length (conversationMsgs_of (elems msgs)))"
    by (simp add: keptConversation_def)
  show "preservedSystem (preservedSystem (elems msgs) @ [FormatSummaryMessage summary] @
                         keptConversation c (elems msgs)) = preservedSystem (elems msgs)"
    by (rule preservedSystem_rebuilt)
  show "filter (\<lambda>m. Role m = RoleSystem \<and> IsSummaryMessage (Content m))
          (preservedSystem (elems msgs) @ [FormatSummaryMessage summary] @
           keptConversation c (elems msgs)) = [FormatSummaryMessage summary]"
    by (rule summaries_rebuilt)
next
  assume n: "\<not> (0 < sint (contextWindow c) \<and> 0 < sint currentTokens \<and>
         \<not> belowThreshold c currentTokens \<and>
         2 * sint (keepRecentTurns c) < int (length (conversationMsgs_of (elems msgs))) \<and>
         (\<exists>s. callSummarize c (concat (map convLine (compressionTarget c (elems msgs)))) = Inr s))"
  show "CompressIfNeeded c newArr msgs currentTokens = Ok (msgs, False)"
  proof (cases "0 < sint (contextWindow c) \<and> 0 < sint currentTokens \<and>
                \<not> belowThreshold c currentTokens")
    case False
    then show ?thesis
      by (auto simp: CompressIfNeeded_def word_sle_eq)
  next
    case gate: True
    show ?thesis
    proof (cases "2 * sint (keepRecentTurns c) < int (length (conversationMsgs_of (elems msgs)))")
      case False
      then have "compress c newArr msgs = Ok msgs"
        using compress_keeps [OF k] by simp
      then show ?thesis
        using gate by (simp add: CompressIfNeeded_def not_sle_zero)
    next
      case True
      with n gate obtain e where
        "callSummarize c (concat (map convLine (compressionTarget c (elems msgs)))) = Inl e"
        by (cases "callSummarize c (concat (map convLine (compressionTarget c (elems msgs))))") auto
      then have "compress c newArr msgs = Err e"
        using compress_fails [OF k True] by (simp add: compressionTarget_def)
      then show ?thesis
        using gate by (simp add: CompressIfNeeded_def not_sle_zero)
    qed
  qed
qed


text \<open>
  The three outcomes on the example history: a rewrite, a call below the threshold, and
  a call whose summarisation fails.
\<close>

theorem compressor_rewrite_or_unchanged_witness:
  "CompressIfNeeded (exampleCompressor answeringModel) 1 exampleHistory 8000 =
     Ok (\<lparr> arr = 1,
           elems = [\<lparr>Role = RoleSystem, Content = ''system prompt''\<rparr>,
                    FormatSummaryMessage ''recap'',
                    \<lparr>Role = RoleAssistant, Content = ''reply2''\<rparr>,
                    \<lparr>Role = RoleUser, Content = ''msg3''\<rparr>] \<rparr>, True) \<and>
   CompressIfNeeded (exampleCompressor answeringModel) 1 exampleHistory 100 =
     Ok (exampleHistory, False) \<and>
   CompressIfNeeded (exampleCompressor failingModel) 1 exampleHistory 8000 =
     Ok (exampleHistory, False)"
  using compressor_rewrite_or_unchanged
      [of "exampleCompressor answeringModel" 1 exampleHistory 8000 "''recap''"]
    compressor_rewrite_or_unchanged
      [of "exampleCompressor answeringModel" 1 exampleHistory 100 "''recap''"]
    compressor_rewrite_or_unchanged
      [of "exampleCompressor failingModel" 1 exampleHistory 8000 "''recap''"]
  by (simp add: exampleCompressor_def NewLLMCompressor_def answeringModel_def failingModel_def
      exampleHistory_def preservedSystem_def keptConversation_def compressionTarget_def
      conversationMsgs_of_def RoleSystem_def RoleUser_def RoleAssistant_def
      IsSummaryMessage_def SummaryPrefix_def summaryTag_def word_sle_eq)

text \<open>
  C3 as stated fails when the model call fails: all four trigger conditions of the claim
  hold, yet \<open>CompressIfNeeded\<close> hands back the original list with \<open>didCompress = false\<close>,
  and the earlier summary (its second element) is still in it.
\<close>

theorem compressor_rewrite_counterexample:
  "0 < sint (contextWindow (exampleCompressor failingModel)) \<and>
   0 < sint (8000 :: go_int) \<and>
   \<not> belowThreshold (exampleCompressor failingModel) 8000 \<and>
   sint (keepRecentTurns (exampleCompressor failingModel) * 2) <
     int (length (conversationMsgs_of (elems exampleHistory))) \<and>
   CompressIfNeeded (exampleCompressor failingModel) 1 exampleHistory 8000 =
     Ok (exampleHistory, False) \<and>
   Role (elems exampleHistory ! 1) = RoleSystem \<and>
   IsSummaryMessage (Content (elems exampleHistory ! 1))"
  by (simp add: exampleCompressor_def NewLLMCompressor_def failingModel_def
      exampleHistory_def CompressIfNeeded_def compress_def Let_def
      conversationMsgs_of_def systemMsgs_of_def RoleSystem_def RoleUser_def RoleAssistant_def
      IsSummaryMessage_def SummaryPrefix_def summaryTag_def word_sle_eq)

text \<open>
  C10. For every summary string \<open>s\<close>, \<open>FormatSummaryMessage s\<close> is a system-role message
  whose content begins with \<open>SummaryPrefix\<close>, and \<open>IsSummaryMessage\<close> accepts that content.
  Hence the next pass does not keep it among the preserved system messages, and every
  list a rewriting pass of \<open>compress\<close> returns holds exactly one system summary message,
  the new one: earlier summaries are dropped, not accumulated.
\<close>

theorem summary_message_roundtrip:
  "Role (FormatSummaryMessage s) = RoleSystem \<and>
   prefix SummaryPrefix (Content (FormatSummaryMessage s)) \<and>
   IsSummaryMessage (Content (FormatSummaryMessage s)) \<and>
   FormatSummaryMessage s \<notin> set (preservedSystem msgs) \<and>
   (compress c newArr history = Ok out \<and> arr out \<noteq> arr history \<longrightarrow>
      (\<exists>s'. filter (\<lambda>m. Role m = RoleSystem \<and> IsSummaryMessage (Content m)) (elems out) =
            [FormatSummaryMessage s']))"
proof (intro conjI impI)
  show "Role (FormatSummaryMessage s) = RoleSystem"
    by (rule Role_Format)
  show "prefix SummaryPrefix (Content (FormatSummaryMessage s))"
    by (simp add: FormatSummaryMessage_def)
  show "IsSummaryMessage (Content (FormatSummaryMessage s))"
    by (rule IsSummaryMessage_Format)
  show "FormatSummaryMessage s \<notin> set (preservedSystem msgs)"
    by (simp add: preservedSystem_def IsSummaryMessage_Format)
next
  assume h: "compress c newArr history = Ok out \<and> arr out \<noteq> arr history"
  then obtain s' n where
    "elems out = preservedSystem (elems history) @ [FormatSummaryMessage s'] @
                 drop n (conversationMsgs_of (elems history))"
    by (auto simp: compress_def Let_def preservedSystem_alt split: if_splits sum.splits)
  moreover have "filter (\<lambda>m. Role m = RoleSystem \<and> IsSummaryMessage (Content m))
          (preservedSystem (elems history)) = []"
    by (auto simp: preservedSystem_def filter_empty_conv)
  ultimately have "filter (\<lambda>m. Role m = RoleSystem \<and> IsSummaryMessage (Content m)) (elems out) =
            [FormatSummaryMessage s']"
    by (simp add: filter_system_kept IsSummaryMessage_Format Role_Format)
  then show "\<exists>s'. filter (\<lambda>m. Role m = RoleSystem \<and> IsSummaryMessage (Content m)) (elems out) =
            [FormatSummaryMessage s']" ..
qed

text \<open>
  A rewriting pass over the example history, which already holds an earlier summary.
\<close>

theorem summary_message_roundtrip_witness:
  "IsSummaryMessage (Content (FormatSummaryMessage ''recap'')) \<and>
   (\<exists>s'. filter (\<lambda>m. Role m = RoleSystem \<and> IsSummaryMessage (Content m))
            [\<lparr>Role = RoleSystem, Content = ''system prompt''\<rparr>,
             FormatSummaryMessage ''recap'',
             \<lparr>Role = RoleAssistant, Content = ''reply2''\<rparr>,
             \<lparr>Role = RoleUser, Content = ''msg3''\<rparr>] = [FormatSummaryMessage s'])"
proof -
  have run: "compress (exampleCompressor answeringModel) 1 exampleHistory =
     Ok \<lparr> arr = 1,
          elems = [\<lparr>Role = RoleSystem, Content = ''system prompt''\<rparr>,
                   FormatSummaryMessage ''recap'',
                   \<lparr>Role = RoleAssistant, Content = ''reply2''\<rparr>,
                   \<lparr>Role = RoleUser, Content = ''msg3''\<rparr>] \<rparr>"
    by (simp add: exampleCompressor_def NewLLMCompressor_def answeringModel_def
        exampleHistory_def compress_def Let_def
        conversationMsgs_of_def systemMsgs_of_def RoleSystem_def RoleUser_def RoleAssistant_def
        IsSummaryMessage_def SummaryPrefix_def summaryTag_def word_sle_eq)
  have apart: "arr \<lparr> arr = 1,
          elems = [\<lparr>Role = RoleSystem, Content = ''system prompt''\<rparr>,
                   FormatSummaryMessage ''recap'',
                   \<lparr>Role = RoleAssistant, Content = ''reply2''\<rparr>,
                   \<lparr>Role = RoleUser, Content = ''msg3''\<rparr>] \<rparr> \<noteq> arr exampleHistory"
    by (simp add: exampleHistory_def)
  show ?thesis
    using summary_message_roundtrip
      [of "''recap''" "[]" "exampleCompressor answeringModel" 1 exampleHistory
          "\<lparr> arr = 1,
             elems = [\<lparr>Role = RoleSystem, Content = ''system prompt''\<rparr>,
                      FormatSummaryMessage ''recap'',
                      \<lparr>Role = RoleAssistant, Content = ''reply2''\<rparr>,
                      \<lparr>Role = RoleUser, Content = ''msg3''\<rparr>] \<rparr>"]
      run apart
    by simp
qed

section \<open>Template renderer and error classifier: results\<close>

lemma render_fold_Nil:
  "foldl (\<lambda>rendered (key, value). ReplaceAll rendered (''{{'' @ key @ ''}}'') value) [] vars = []"
  by (induction vars) auto

lemma RenderTemplate_fold:
  "RenderTemplate content vars =
   foldl (\<lambda>rendered (key, value). ReplaceAll rendered (''{{'' @ key @ ''}}'') value) content vars"
  unfolding RenderTemplate_def using render_fold_Nil [of vars] by auto

text \<open>
  On a template of plain text and placeholders, replacing the placeholder of a
  brace-free key touches exactly the placeholders of that name: the scan passes over
  text, which holds no opening brace, and a placeholder matches only under its own name.
\<close>

lemma ReplaceAll_skip_text:
  "CHR ''{'' \<notin> set t \<Longrightarrow>
   ReplaceAll (t @ r) (CHR ''{'' # p) v = t @ ReplaceAll r (CHR ''{'' # p) v"
  by (induction t) auto

lemma closing_prefix:
  "braceFree k \<Longrightarrow> braceFree n \<Longrightarrow> prefix (k @ ''}}'') (n @ ''}}'' @ r) \<longleftrightarrow> k = n"
proof (induction k arbitrary: n)
  case Nil
  then show ?case by (cases n) (auto simp: braceFree_def)
next
  case (Cons c k)
  then show ?case by (cases n) (auto simp: braceFree_def)
qed

lemma ReplaceAll_hole:
  assumes "braceFree k" "braceFree n"
  shows "ReplaceAll (''{{'' @ n @ ''}}'' @ r) (''{{'' @ k @ ''}}'') v =
         (if n = k then v @ ReplaceAll r (''{{'' @ k @ ''}}'') v
          else ''{{'' @ n @ ''}}'' @ ReplaceAll r (''{{'' @ k @ ''}}'') v)"
proof (cases "n = k")
  case True
  have "drop (length (''{{'' @ k @ ''}}'')) (''{{'' @ k @ ''}}'' @ r) = r"
    by simp
  then show ?thesis using True by simp
next
  case False
  have no0: "\<not> prefix (''{{'' @ k @ ''}}'') (''{{'' @ n @ ''}}'' @ r)"
    using closing_prefix [OF assms, of r] False by auto
  have no1: "\<not> prefix (''{{'' @ k @ ''}}'') (CHR ''{'' # n @ ''}}'' @ r)"
    using assms(2) by (cases n) (auto simp: braceFree_def)
  have tail: "CHR ''{'' \<notin> set (n @ ''}}'')"
    using assms(2) by (simp add: braceFree_def)
  have "ReplaceAll ((n @ ''}}'') @ r) (CHR ''{'' # CHR ''{'' # k @ ''}}'') v =
        (n @ ''}}'') @ ReplaceAll r (CHR ''{'' # CHR ''{'' # k @ ''}}'') v"
    by (rule ReplaceAll_skip_text [OF tail])
  then show ?thesis
    using False no0 no1 by simp
qed

lemma ReplaceAll_flatten:
  assumes "list_all plainToken toks" "braceFree k"
  shows "ReplaceAll (flatten toks) (''{{'' @ k @ ''}}'') v = flatten (map (fill [k \<mapsto> v]) toks)"
  using assms(1)
proof (induction toks)
  case Nil
  then show ?case by simp
next
  case (Cons tok toks)
  show ?case
  proof (cases tok)
    case (Text t)
    with Cons.prems have "CHR ''{'' \<notin> set t" by (simp add: braceFree_def)
    from ReplaceAll_skip_text [OF this, of "flatten toks" "CHR ''{'' # k @ ''}}''" v]
    show ?thesis using Text Cons by simp
  next
    case (Hole n)
    with Cons.prems have n: "braceFree n" by simp
    from ReplaceAll_hole [OF assms(2) n, of "flatten toks" v]
    show ?thesis using Hole Cons by simp
  qed
qed


lemma fill_plain:
  "list_all plainToken toks \<Longrightarrow> (\<And>n v. m n = Some v \<Longrightarrow> braceFree v) \<Longrightarrow>
   list_all plainToken (map (fill m) toks)"
proof (induction toks)
  case Nil
  then show ?case by simp
next
  case (Cons tok toks)
  then show ?case by (cases tok) (auto split: option.splits)
qed

lemma fill_empty: "fill Map.empty tok = tok"
  by (cases tok) simp_all

lemma fill_step:
  "fill m (fill [k \<mapsto> v] tok) = fill (m(k \<mapsto> v)) tok"
  by (cases tok) (auto split: option.splits)

lemma render_fold_flatten:
  "list_all plainToken toks \<Longrightarrow> plainVars vars \<Longrightarrow>
   foldl (\<lambda>rendered (key, value). ReplaceAll rendered (''{{'' @ key @ ''}}'') value)
     (flatten toks) vars =
   flatten (map (fill (map_of vars)) toks)"
proof (induction vars arbitrary: toks)
  case Nil
  have "map (fill Map.empty) toks = toks"
    by (induction toks) (simp_all add: fill_empty)
  then show ?case by simp
next
  case (Cons kv vars)
  obtain k v where kv: "kv = (k, v)" by (cases kv)
  from Cons.prems(2) kv have k: "braceFree k" and v: "braceFree v" and rest: "plainVars vars"
    by (simp_all add: plainVars_def)
  have plain: "list_all plainToken (map (fill [k \<mapsto> v]) toks)"
    using Cons.prems(1) v by (intro fill_plain) (auto split: if_splits)
  have "foldl (\<lambda>rendered (key, value). ReplaceAll rendered (''{{'' @ key @ ''}}'') value)
          (flatten toks) (kv # vars) =
        foldl (\<lambda>rendered (key, value). ReplaceAll rendered (''{{'' @ key @ ''}}'') value)
          (flatten (map (fill [k \<mapsto> v]) toks)) vars"
    using ReplaceAll_flatten [OF Cons.prems(1) k, of v] kv by simp
  also have "\<dots> = flatten (map (fill (map_of vars)) (map (fill [k \<mapsto> v]) toks))"
    by (rule Cons.IH [OF plain rest])
  also have "map (fill (map_of vars)) (map (fill [k \<mapsto> v]) toks) =
             map (fill ((map_of vars)(k \<mapsto> v))) toks"
    by (simp add: fill_step)
  finally have "foldl (\<lambda>rendered (key, value). ReplaceAll rendered (''{{'' @ key @ ''}}'') value)
          (flatten toks) (kv # vars) = flatten (map (fill ((map_of vars)(k \<mapsto> v))) toks)" .
  moreover have "map_of (kv # vars) = (map_of vars)(k \<mapsto> v)"
    unfolding kv by (rule ext) simp
  ultimately show ?case by (simp only:)
qed

lemma RenderTemplate_flatten:
  "list_all plainToken toks \<Longrightarrow> plainVars vars \<Longrightarrow>
   RenderTemplate (flatten toks) vars = flatten (map (fill (map_of vars)) toks)"
  by (simp only: RenderTemplate_fold render_fold_flatten)

lemma plainVars_value:
  "plainVars vars \<Longrightarrow> map_of vars n = Some v \<Longrightarrow> braceFree v"
  by (auto simp: plainVars_def list_all_iff dest!: map_of_SomeD)

lemma fill_twice:
  "dom ma \<inter> dom mb = {} \<Longrightarrow> fill mb (fill ma tok) = fill (ma ++ mb) tok"
  by (cases tok) (auto simp: map_add_def split: option.splits)

lemma map_of_same_entries:
  assumes "distinct (map fst xs)" "distinct (map fst ys)" "set xs = set ys"
  shows "map_of xs = map_of ys"
proof
  fix k
  show "map_of xs k = map_of ys k"
  proof (cases "map_of xs k")
    case None
    then have "k \<notin> fst ` set ys" using assms(3) by (simp add: map_of_eq_None_iff)
    then have "map_of ys k = None" by (simp add: map_of_eq_None_iff)
    with None show ?thesis by simp
  next
    case (Some v)
    then have "(k, v) \<in> set ys" using assms(3) by (auto dest: map_of_SomeD)
    then show ?thesis using Some assms(2) by simp
  qed
qed

text \<open>
  C2 (amended). For every content made of plain text and placeholders \<open>{{name}}\<close> and every
  pair of variable maps \<open>A\<close> and \<open>B\<close> with disjoint key sets, where no text, name, key
  or value holds a brace: in whatever order the range loops visit the entries,
  \<open>RenderTemplate content (A \<union> B)\<close> equals \<open>RenderTemplate (RenderTemplate content A) B\<close>;
  both are the content with every placeholder whose name is a key replaced by that
  key's value; and \<open>RenderTemplate\<close> is deterministic there: every visiting order of the
  same map gives the same output.
\<close>

theorem render_union_any_order:
  assumes plain: "list_all plainToken toks" "plainVars a" "plainVars b"
    and keys: "distinct (map fst a)" "distinct (map fst b)" "fst ` set a \<inter> fst ` set b = {}"
    and union: "distinct (map fst ab)" "set ab = set a \<union> set b"
  shows "RenderTemplate (flatten toks) ab = RenderTemplate (RenderTemplate (flatten toks) a) b \<and>
         RenderTemplate (flatten toks) ab = flatten (map (fill (map_of a ++ map_of b)) toks) \<and>
         (\<forall>ab'. distinct (map fst ab') \<and> set ab' = set ab \<longrightarrow>
                RenderTemplate (flatten toks) ab' = RenderTemplate (flatten toks) ab)"
proof -
  have disj: "dom (map_of a) \<inter> dom (map_of b) = {}"
    using keys(3) by (simp add: dom_map_of_conv_image_fst)
  have "distinct (map fst (a @ b))"
    using keys by auto
  then have m: "map_of ab = map_of (a @ b)"
    using union by (intro map_of_same_entries) auto
  have mab: "map_of ab = map_of a ++ map_of b"
    using m map_add_comm [OF disj] by simp
  have pab: "plainVars ab"
    using plain(2,3) union(2) by (auto simp: plainVars_def list_all_iff)
  have whole: "RenderTemplate (flatten toks) ab = flatten (map (fill (map_of a ++ map_of b)) toks)"
    using RenderTemplate_flatten [OF plain(1) pab] mab by simp
  have first: "RenderTemplate (flatten toks) a = flatten (map (fill (map_of a)) toks)"
    by (rule RenderTemplate_flatten [OF plain(1,2)])
  have plain': "list_all plainToken (map (fill (map_of a)) toks)"
    using plain(1) plainVars_value [OF plain(2)] by (rule fill_plain)
  have "RenderTemplate (RenderTemplate (flatten toks) a) b =
        flatten (map (fill (map_of b)) (map (fill (map_of a)) toks))"
    unfolding first by (rule RenderTemplate_flatten [OF plain' plain(3)])
  also have "map (fill (map_of b)) (map (fill (map_of a)) toks) =
             map (fill (map_of a ++ map_of b)) toks"
    by (simp add: fill_twice [OF disj] comp_def)
  finally have twice: "RenderTemplate (RenderTemplate (flatten toks) a) b =
        flatten (map (fill (map_of a ++ map_of b)) toks)" .
  have any: "RenderTemplate (flatten toks) ab' = RenderTemplate (flatten toks) ab"
    if "distinct (map fst ab')" "set ab' = set ab" for ab'
  proof -
    have "plainVars ab'"
      using pab that(2) by (auto simp: plainVars_def list_all_iff)
    from RenderTemplate_flatten [OF plain(1) this]
    show ?thesis
      using RenderTemplate_flatten [OF plain(1) pab]
        map_of_same_entries [OF that(1) union(1) that(2)] by simp
  qed
  show ?thesis
    using whole twice any by simp
qed

text \<open>
  The renderer's own test input, split into two maps, in both visiting orders.
\<close>

theorem render_union_any_order_witness:
  "flatten exampleTemplate = ''Hello {{name}}, output: {{output_path}}.'' \<and>
   RenderTemplate (flatten exampleTemplate)
     [(''output_path'', ''docs/report.md''), (''name'', ''WitGlow'')] =
     ''Hello WitGlow, output: docs/report.md.'' \<and>
   RenderTemplate (flatten exampleTemplate)
     [(''name'', ''WitGlow''), (''output_path'', ''docs/report.md'')] =
     ''Hello WitGlow, output: docs/report.md.'' \<and>
   RenderTemplate (RenderTemplate (flatten exampleTemplate) [(''name'', ''WitGlow'')])
     [(''output_path'', ''docs/report.md'')] =
     ''Hello WitGlow, output: docs/report.md.''"
proof -
  have plain: "list_all plainToken exampleTemplate"
    "plainVars [(''name'', ''WitGlow'')]" "plainVars [(''output_path'', ''docs/report.md'')]"
    by (simp_all add: exampleTemplate_def plainVars_def braceFree_def)
  have keys: "distinct (map fst [(''name'', ''WitGlow'')])"
    "distinct (map fst [(''output_path'', ''docs/report.md'')])"
    "fst ` set [(''name'', ''WitGlow'')] \<inter> fst ` set [(''output_path'', ''docs/report.md'')] = {}"
    by simp_all
  have union: "distinct (map fst [(''output_path'', ''docs/report.md''), (''name'', ''WitGlow'')])"
    "set [(''output_path'', ''docs/report.md''), (''name'', ''WitGlow'')] =
     set [(''name'', ''WitGlow'')] \<union> set [(''output_path'', ''docs/report.md'')]"
    by auto
  have filled: "flatten (map (fill (map_of [(''name'', ''WitGlow'')] ++
                                    map_of [(''output_path'', ''docs/report.md'')])) exampleTemplate) =
                ''Hello WitGlow, output: docs/report.md.''"
    by (simp add: exampleTemplate_def)
  have other: "distinct (map fst [(''name'', ''WitGlow''), (''output_path'', ''docs/report.md'')]) \<and>
     set [(''name'', ''WitGlow''), (''output_path'', ''docs/report.md'')] =
     set [(''output_path'', ''docs/report.md''), (''name'', ''WitGlow'')]"
    by auto
  from render_union_any_order [OF plain keys union]
  have r: "RenderTemplate (flatten exampleTemplate)
        [(''output_path'', ''docs/report.md''), (''name'', ''WitGlow'')] =
      RenderTemplate (RenderTemplate (flatten exampleTemplate) [(''name'', ''WitGlow'')])
        [(''output_path'', ''docs/report.md'')]"
    and f: "RenderTemplate (flatten exampleTemplate)
        [(''output_path'', ''docs/report.md''), (''name'', ''WitGlow'')] =
      flatten (map (fill (map_of [(''name'', ''WitGlow'')] ++
                          map_of [(''output_path'', ''docs/report.md'')])) exampleTemplate)"
    and o: "\<forall>ab'. distinct (map fst ab') \<and>
        set ab' = set [(''output_path'', ''docs/report.md''), (''name'', ''WitGlow'')] \<longrightarrow>
        RenderTemplate (flatten exampleTemplate) ab' =
        RenderTemplate (flatten exampleTemplate)
          [(''output_path'', ''docs/report.md''), (''name'', ''WitGlow'')]"
    by blast+
  from o other have o': "RenderTemplate (flatten exampleTemplate)
        [(''name'', ''WitGlow''), (''output_path'', ''docs/report.md'')] =
      RenderTemplate (flatten exampleTemplate)
        [(''output_path'', ''docs/report.md''), (''name'', ''WitGlow'')]"
    by blast
  have shape: "flatten exampleTemplate = ''Hello {{name}}, output: {{output_path}}.''"
    by (simp add: exampleTemplate_def)
  show ?thesis
    using shape r f o' filled by (simp only: simp_thms)
qed

text \<open>
  C2 as stated fails. With \<open>A = {a: "{{b}}"}\<close> and \<open>B = {b: "x"}\<close>, a run that visits \<open>b\<close>
  before \<open>a\<close> renders \<open>"{{a}}"\<close> with \<open>A \<union> B\<close> to \<open>"{{b}}"\<close>, while rendering with \<open>A\<close> and then
  with \<open>B\<close> gives \<open>"x"\<close>; and the same map visited in the other order gives \<open>"x"\<close>, so equal
  inputs do not always produce the same output.
\<close>

theorem render_union_counterexample:
  "distinct (map fst [(''b'', ''x''), (''a'', ''{{b}}'')]) \<and>
   set [(''b'', ''x''), (''a'', ''{{b}}'')] = set [(''a'', ''{{b}}'')] \<union> set [(''b'', ''x'')] \<and>
   RenderTemplate ''{{a}}'' [(''b'', ''x''), (''a'', ''{{b}}'')] = ''{{b}}'' \<and>
   RenderTemplate (RenderTemplate ''{{a}}'' [(''a'', ''{{b}}'')]) [(''b'', ''x'')] = ''x'' \<and>
   RenderTemplate ''{{a}}'' [(''a'', ''{{b}}''), (''b'', ''x'')] = ''x''"
  by (simp add: RenderTemplate_def insert_commute)

text \<open>
  Brace-free values alone do not restore the law: in content where a placeholder sits
  inside another pair of braces, a substitution completes a new placeholder, and the
  output again depends on the visiting order.
\<close>

lemma render_nested_content_order:
  "RenderTemplate ''{{x{{a}}}}'' [(''a'', ''y''), (''xy'', ''z'')] = ''z'' \<and>
   RenderTemplate ''{{x{{a}}}}'' [(''xy'', ''z''), (''a'', ''y'')] = ''{{xy}}''"
  by (simp add: RenderTemplate_def)

text \<open>
  The chain is the one \<open>Unwrap\<close> walks; \<open>errors.As\<close> and \<open>errors.Is\<close> are searches along it.
\<close>

lemma unwrapChain_Unwrap:
  "unwrapChain e = e # (case Unwrap e of None \<Rightarrow> [] | Some inner \<Rightarrow> unwrapChain inner)"
proof (cases e)
  case (ToolError code err)
  then show ?thesis by (cases err) simp_all
qed simp_all












section \<open>Fallback router and frontmatter parser: results\<close>

text \<open>
  C5. For every fallback map and every graph state: when the state holds a non-empty
  \<open>pipeline_error_code\<close>, the router returns that code as the edge label if the fallback
  map has it as a key, else \<open>default\<close> if the map has a \<open>default\<close> entry, else \<open>success\<close>; when
  the code is empty or absent (or not a string) it returns \<open>success\<close>.
\<close>

theorem fallback_router_label:
  "(state StateKeyPipelineErrorCode = Some (AnyString code) \<and> code \<noteq> [] \<longrightarrow>
      makeFallbackRouter fallback state =
        (if code \<in> fst ` set fallback then code
         else if ''default'' \<in> fst ` set fallback then ''default''
         else ''success'')) \<and>
   (state StateKeyPipelineErrorCode = None \<or>
    state StateKeyPipelineErrorCode = Some (AnyString []) \<or>
    state StateKeyPipelineErrorCode = Some AnyOther \<longrightarrow>
      makeFallbackRouter fallback state = ''success'')"
proof -
  have dom: "(\<exists>v. map_of fallback k = Some v) = (k \<in> fst ` set fallback)" for k
    using map_of_eq_None_iff [of fallback k] by auto
  show ?thesis
    by (auto simp: makeFallbackRouter_def dom)
qed

text \<open>
  The fallback map of scenario S2 and smaller ones, at a listed code, an unlisted code
  with and without a \<open>default\<close> entry, an empty code and an empty state.
\<close>

theorem fallback_router_label_witness:
  "makeFallbackRouter [(''default'', ''2.1''), (''compile_error'', ''2.1''), (''timeout'', ''3.1'')]
     [StateKeyPipelineErrorCode \<mapsto> AnyString ''compile_error''] = ''compile_error'' \<and>
   makeFallbackRouter [(''default'', ''2.1''), (''compile_error'', ''2.1''), (''timeout'', ''3.1'')]
     [StateKeyPipelineErrorCode \<mapsto> AnyString ''runtime_error''] = ''default'' \<and>
   makeFallbackRouter [(''timeout'', ''3.1'')]
     [StateKeyPipelineErrorCode \<mapsto> AnyString ''runtime_error''] = ''success'' \<and>
   makeFallbackRouter [(''default'', ''2.1'')] [StateKeyPipelineErrorCode \<mapsto> AnyString []] =
     ''success'' \<and>
   makeFallbackRouter [(''default'', ''2.1'')] Map.empty = ''success''"
  using fallback_router_label
      [of "[StateKeyPipelineErrorCode \<mapsto> AnyString ''compile_error'']" "''compile_error''"
          "[(''default'', ''2.1''), (''compile_error'', ''2.1''), (''timeout'', ''3.1'')]"]
    fallback_router_label
      [of "[StateKeyPipelineErrorCode \<mapsto> AnyString ''runtime_error'']" "''runtime_error''"
          "[(''default'', ''2.1''), (''compile_error'', ''2.1''), (''timeout'', ''3.1'')]"]
    fallback_router_label
      [of "[StateKeyPipelineErrorCode \<mapsto> AnyString ''runtime_error'']" "''runtime_error''"
          "[(''timeout'', ''3.1'')]"]
    fallback_router_label
      [of "[StateKeyPipelineErrorCode \<mapsto> AnyString []]" "[]" "[(''default'', ''2.1'')]"]
    fallback_router_label [of Map.empty "[]" "[(''default'', ''2.1'')]"]
  by simp

lemma SplitN2_cases:
  "SplitN2 s sep = (case Index s sep of None \<Rightarrow> [s]
                    | Some i \<Rightarrow> [take i s, drop (i + length sep) s])"
  by (simp add: SplitN2_def)

lemma ParsePrompt_no_start:
  "\<not> prefix ''---'' content \<Longrightarrow> ParsePrompt y content = Inl ''frontmatter delimiter not found''"
  by (simp add: ParsePrompt_def)

lemma ParsePrompt_no_end:
  "prefix ''---'' content \<Longrightarrow> Index (drop 3 content) ''---'' = None \<Longrightarrow>
   ParsePrompt y content = Inl ''frontmatter end delimiter not found''"
  by (simp add: ParsePrompt_def SplitN2_def numeral_3_eq_3)

lemma ParsePrompt_yaml_error:
  "prefix ''---'' content \<Longrightarrow> Index (drop 3 content) ''---'' = Some i \<Longrightarrow>
   yaml_Unmarshal y (take i (drop 3 content)) = Inl err \<Longrightarrow>
   ParsePrompt y content = Inl (''parse frontmatter: '' @ err)"
  by (simp add: ParsePrompt_def SplitN2_def numeral_3_eq_3)

lemma ParsePrompt_ok:
  "prefix ''---'' content \<Longrightarrow> Index (drop 3 content) ''---'' = Some i \<Longrightarrow>
   yaml_Unmarshal y (take i (drop 3 content)) = Inr raw \<Longrightarrow>
   ParsePrompt y content =
     Inr (raw\<lparr> Advance := (if Advance raw = [] then AdvanceAuto else Advance raw),
               Tools := (if Tools raw = [] \<and> MCP raw \<noteq> [] then MCP raw else Tools raw) \<rparr>,
          trimLeadingNewline (drop (i + 3) (drop 3 content)))"
  by (simp add: ParsePrompt_def SplitN2_def Let_def numeral_3_eq_3)


text \<open>
  What \<open>Index\<close> returns is the first offset at which the separator occurs.
\<close>

lemma Index_Some_occurs:
  "Index s sub = Some i \<Longrightarrow> prefix sub (drop i s) \<and> (\<forall>j<i. \<not> prefix sub (drop j s))"
proof (induction s arbitrary: i)
  case Nil
  then show ?case by (simp split: if_splits)
next
  case (Cons c s)
  show ?case
  proof (cases "prefix sub (c # s)")
    case True
    with Cons.prems show ?thesis by simp
  next
    case False
    with Cons.prems obtain i' where i': "Index s sub = Some i'" "i = Suc i'"
      by auto
    from Cons.IH [OF i'(1)] have ih: "prefix sub (drop i' s)" "\<forall>j<i'. \<not> prefix sub (drop j s)"
      by simp_all
    have "\<not> prefix sub (drop j (c # s))" if "j < Suc i'" for j
      using that False ih(2) by (cases j) simp_all
    with ih(1) i'(2) show ?thesis by simp
  qed
qed

lemma Index_None_absent:
  "Index s sub = None \<Longrightarrow> \<not> prefix sub (drop j s)"
proof (induction s arbitrary: j)
  case Nil
  then show ?case by (simp split: if_splits)
next
  case (Cons c s)
  then have "\<not> prefix sub (c # s)" and "Index s sub = None"
    by (auto split: if_splits)
  with Cons.IH show ?case by (cases j) simp_all
qed

lemma trimLeadingNewline_cases:
  "trimLeadingNewline (CHR 0x0A # s) = s"
  "trimLeadingNewline (CHR 0x0D # CHR 0x0A # s) = s"
  "\<not> prefix [CHR 0x0A] s \<Longrightarrow> \<not> prefix [CHR 0x0D, CHR 0x0A] s \<Longrightarrow> trimLeadingNewline s = s"
  by (simp_all add: trimLeadingNewline_def TrimPrefix_def)

text \<open>
  C9. \<open>ParsePrompt\<close> returns an error iff the content does not begin with \<open>---\<close>, or no
  second \<open>---\<close> follows, or decoding the text between the two as YAML fails. On every
  successful parse the body is the text after the second \<open>---\<close> (the first one after the
  opening delimiter) passed through \<open>trimLeadingNewline\<close>, which removes one leading
  newline or CRLF and nothing else; \<open>advance\<close> is \<open>auto\<close> when the decoded value is empty;
  \<open>tools\<close> is the \<open>mcp\<close> list when \<open>tools\<close> is empty and \<open>mcp\<close> is not; every other field is
  as decoded; and a scalar \<open>output\<close> node decodes to the singleton list of its value.
\<close>

theorem ParsePrompt_contract:
  "(isl (ParsePrompt y content) \<longleftrightarrow>
      \<not> prefix ''---'' content \<or>
      (case Index (drop 3 content) ''---'' of
         None \<Rightarrow> True
       | Some i \<Rightarrow> isl (yaml_Unmarshal y (take i (drop 3 content))))) \<and>
   (ParsePrompt y content = Inr (fm, body) \<longrightarrow>
      (\<exists>i raw. prefix ''---'' content \<and> Index (drop 3 content) ''---'' = Some i \<and>
         prefix ''---'' (drop i (drop 3 content)) \<and>
         (\<forall>j<i. \<not> prefix ''---'' (drop j (drop 3 content))) \<and>
         yaml_Unmarshal y (take i (drop 3 content)) = Inr raw \<and>
         body = trimLeadingNewline (drop (i + 3) (drop 3 content)) \<and>
         fm = raw\<lparr> Advance := (if Advance raw = [] then AdvanceAuto else Advance raw),
                   Tools := (if Tools raw = [] \<and> MCP raw \<noteq> [] then MCP raw else Tools raw) \<rparr>)) \<and>
   trimLeadingNewline (CHR 0x0A # s) = s \<and>
   trimLeadingNewline (CHR 0x0D # CHR 0x0A # s) = s \<and>
   (\<not> prefix [CHR 0x0A] s \<and> \<not> prefix [CHR 0x0D, CHR 0x0A] s \<longrightarrow> trimLeadingNewline s = s) \<and>
   (decodePlain y text = Inr (plain, Some node) \<and> Kind node = ScalarNode \<longrightarrow>
      yaml_Unmarshal y text = Inr (plain\<lparr>Output := [Value node]\<rparr>))"
proof (intro conjI)
  show "isl (ParsePrompt y content) \<longleftrightarrow>
      \<not> prefix ''---'' content \<or>
      (case Index (drop 3 content) ''---'' of
         None \<Rightarrow> True
       | Some i \<Rightarrow> isl (yaml_Unmarshal y (take i (drop 3 content))))"
  proof (cases "prefix ''---'' content")
    case False
    then show ?thesis by (simp add: ParsePrompt_no_start)
  next
    case start: True
    show ?thesis
    proof (cases "Index (drop 3 content) ''---''")
      case None
      with start show ?thesis by (simp add: ParsePrompt_no_end)
    next
      case (Some i)
      show ?thesis
      proof (cases "yaml_Unmarshal y (take i (drop 3 content))")
        case (Inl err)
        with start Some show ?thesis by (simp add: ParsePrompt_yaml_error)
      next
        case (Inr raw)
        with start Some show ?thesis by (simp add: ParsePrompt_ok)
      qed
    qed
  qed
next
  show "ParsePrompt y content = Inr (fm, body) \<longrightarrow>
      (\<exists>i raw. prefix ''---'' content \<and> Index (drop 3 content) ''---'' = Some i \<and>
         prefix ''---'' (drop i (drop 3 content)) \<and>
         (\<forall>j<i. \<not> prefix ''---'' (drop j (drop 3 content))) \<and>
         yaml_Unmarshal y (take i (drop 3 content)) = Inr raw \<and>
         body = trimLeadingNewline (drop (i + 3) (drop 3 content)) \<and>
         fm = raw\<lparr> Advance := (if Advance raw = [] then AdvanceAuto else Advance raw),
                   Tools := (if Tools raw = [] \<and> MCP raw \<noteq> [] then MCP raw else Tools raw) \<rparr>)"
  proof
    assume ok: "ParsePrompt y content = Inr (fm, body)"
    have start: "prefix ''---'' content"
      using ok ParsePrompt_no_start [of content y] by (cases "prefix ''---'' content") simp_all
    obtain i where i: "Index (drop 3 content) ''---'' = Some i"
      using ok start ParsePrompt_no_end [of content y]
      by (cases "Index (drop 3 content) ''---''") simp_all
    obtain raw where raw: "yaml_Unmarshal y (take i (drop 3 content)) = Inr raw"
      using ok ParsePrompt_yaml_error [OF start i, of y]
      by (cases "yaml_Unmarshal y (take i (drop 3 content))") simp_all
    have "ParsePrompt y content =
       Inr (raw\<lparr> Advance := (if Advance raw = [] then AdvanceAuto else Advance raw),
                 Tools := (if Tools raw = [] \<and> MCP raw \<noteq> [] then MCP raw else Tools raw) \<rparr>,
            trimLeadingNewline (drop (i + 3) (drop 3 content)))"
      by (rule ParsePrompt_ok [OF start i raw])
    with ok have
      "body = trimLeadingNewline (drop (i + 3) (drop 3 content))"
      "fm = raw\<lparr> Advance := (if Advance raw = [] then AdvanceAuto else Advance raw),
                 Tools := (if Tools raw = [] \<and> MCP raw \<noteq> [] then MCP raw else Tools raw) \<rparr>"
      by simp_all
    with start i raw Index_Some_occurs [OF i]
    show "\<exists>i raw. prefix ''---'' content \<and> Index (drop 3 content) ''---'' = Some i \<and>
         prefix ''---'' (drop i (drop 3 content)) \<and>
         (\<forall>j<i. \<not> prefix ''---'' (drop j (drop 3 content))) \<and>
         yaml_Unmarshal y (take i (drop 3 content)) = Inr raw \<and>
         body = trimLeadingNewline (drop (i + 3) (drop 3 content)) \<and>
         fm = raw\<lparr> Advance := (if Advance raw = [] then AdvanceAuto else Advance raw),
                   Tools := (if Tools raw = [] \<and> MCP raw \<noteq> [] then MCP raw else Tools raw) \<rparr>"
      by blast
  qed
next
  show "trimLeadingNewline (CHR 0x0A # s) = s"
    by (rule trimLeadingNewline_cases)
  show "trimLeadingNewline (CHR 0x0D # CHR 0x0A # s) = s"
    by (rule trimLeadingNewline_cases)
  show "\<not> prefix [CHR 0x0A] s \<and> \<not> prefix [CHR 0x0D, CHR 0x0A] s \<longrightarrow> trimLeadingNewline s = s"
    by (simp add: trimLeadingNewline_cases)
  show "decodePlain y text = Inr (plain, Some node) \<and> Kind node = ScalarNode \<longrightarrow>
      yaml_Unmarshal y text = Inr (plain\<lparr>Output := [Value node]\<rparr>)"
    by (simp add: yaml_Unmarshal_def UnmarshalYAML_def)
qed

text \<open>
  A prompt with a scalar \<open>output\<close>, an \<open>mcp\<close> list and no \<open>advance\<close>, and three rejected
  inputs: no opening delimiter, no closing delimiter, and frontmatter the YAML library
  rejects.
\<close>

theorem ParsePrompt_contract_witness:
  "ParsePrompt exampleYaml examplePrompt =
     Inr (exampleDecoded\<lparr> Output := [''docs/a.md''], Advance := ''auto'', Tools := [''eda''] \<rparr>,
          ''Write the outline.'') \<and>
   isl (ParsePrompt exampleYaml ''no frontmatter here'') \<and>
   isl (ParsePrompt exampleYaml ''---step: 1.1'') \<and>
   isl (ParsePrompt exampleYaml ''---step: [---body'')"
proof -
  have run: "ParsePrompt exampleYaml examplePrompt =
     Inr (exampleDecoded\<lparr> Output := [''docs/a.md''], Advance := ''auto'', Tools := [''eda''] \<rparr>,
          ''Write the outline.'')"
    by (simp add: ParsePrompt_def SplitN2_def examplePrompt_def exampleFrontmatterText_def
        exampleYaml_def yaml_Unmarshal_def UnmarshalYAML_def exampleDecoded_def Let_def
        AdvanceAuto_def trimLeadingNewline_def TrimPrefix_def)
  show ?thesis
    using run
      ParsePrompt_contract [of exampleYaml examplePrompt
        "exampleDecoded\<lparr> Output := [''docs/a.md''], Advance := ''auto'', Tools := [''eda''] \<rparr>"
        "''Write the outline.''" "[]" exampleFrontmatterText exampleDecoded
        "\<lparr>Kind = ScalarNode, Value = ''docs/a.md''\<rparr>"]
      ParsePrompt_contract [of exampleYaml "''no frontmatter here''"]
      ParsePrompt_contract [of exampleYaml "''---step: 1.1''"]
      ParsePrompt_contract [of exampleYaml "''---step: [---body''"]
    by (simp add: exampleYaml_def yaml_Unmarshal_def exampleFrontmatterText_def)
qed

section \<open>Middleware chain: results\<close>

lemma runPostCallbacks_append:
  "runPostCallbacks (before @ rest) w result nodeErr =
     (case runPostCallbacks before w result nodeErr of
        ((r, Some err), w') \<Rightarrow> ((r, Some err), w')
      | ((r1, None), w1) \<Rightarrow> runPostCallbacks rest w1 r1 nodeErr)"
proof (induction before arbitrary: w result)
  case Nil
  then show ?case by simp
next
  case (Cons cb before)
  show ?case
  proof (cases "cb w result nodeErr")
    case (Pair out w')
    obtain r e where out: "out = (r, e)" by (cases out)
    show ?thesis
      using Pair out Cons.IH by (cases e) simp_all
  qed
qed

text \<open>
  C6 (amended). For every middleware chain whose \<open>WrapPostNode\<close> returns a combined post
  hook: once a member post hook returns a non-nil error, the combined hook returns that
  error with a nil result, and the remaining member hooks are not run (the world is the
  one that hook left). A non-nil node error is handed to each member hook that runs; the
  artifact recorder's hook returns it at once without recording, so the chain stops at
  that hook.
\<close>

theorem post_hooks_stop_at_hook_error:
  "(WrapPostNode items stepID step = Some hook \<and>
    postCallbacks items stepID step = before @ cb # remaining \<and>
    runPostCallbacks before w result nodeErr = ((r1, None), w1) \<and>
    cb w1 r1 nodeErr = ((r, Some err), w2) \<longrightarrow>
      hook w result nodeErr = ((None, Some err), w2)) \<and>
   (ArtifactRecordMiddleware_WrapPostNode recordCompleted stepID step = Some recorder \<longrightarrow>
      recorder w1 r1 (Some nodeErr') = ((None, Some nodeErr'), w1))"
proof (intro conjI impI)
  assume h: "WrapPostNode items stepID step = Some hook \<and>
    postCallbacks items stepID step = before @ cb # remaining \<and>
    runPostCallbacks before w result nodeErr = ((r1, None), w1) \<and>
    cb w1 r1 nodeErr = ((r, Some err), w2)"
  then have "hook = runPostCallbacks (before @ cb # remaining)"
    by (auto simp: WrapPostNode_def Let_def split: if_splits)
  then show "hook w result nodeErr = ((None, Some err), w2)"
    using h by (simp add: runPostCallbacks_append)
next
  assume "ArtifactRecordMiddleware_WrapPostNode recordCompleted stepID step = Some recorder"
  then show "recorder w1 r1 (Some nodeErr') = ((None, Some nodeErr'), w1)"
    by (auto simp: ArtifactRecordMiddleware_WrapPostNode_def split: if_splits)
qed

text \<open>
  A chain that stops at its second hook, and a chain whose artifact recorder stops it
  on a node error before the hook after it runs.
\<close>

theorem post_hooks_stop_at_hook_error_witness:
  "map_option (\<lambda>hook. hook [] (None :: string option) None)
     (WrapPostNode [auditHook ''first'', failingHook ''second'', auditHook ''third'']
        ''1.1'' exampleStep) =
     Some ((None, Some (ErrorString ''second failed'')), [''first'', ''second'']) \<and>
   map_option (\<lambda>hook. hook [] (None :: string option) (Some (ErrorString ''node failed'')))
     (WrapPostNode
        [ArtifactRecordMiddleware_WrapPostNode (\<lambda>stepID title output w. w @ [output]),
         auditHook ''after''] ''1.1'' exampleStep) =
     Some ((None, Some (ErrorString ''node failed'')), [])"
proof -
  let ?items = "[auditHook ''first'', failingHook ''second'', auditHook ''third'']
                  :: (string list, string) Middleware list"
  let ?hook = "runPostCallbacks (postCallbacks ?items ''1.1'' exampleStep)"
  let ?rec = "ArtifactRecordMiddleware_WrapPostNode (\<lambda>stepID title output w. w @ [output])
                :: (string list, string) Middleware"
  have cbs: "postCallbacks ?items ''1.1'' exampleStep =
      [the (auditHook ''first'' ''1.1'' exampleStep)] @
      the (failingHook ''second'' ''1.1'' exampleStep) #
      [the (auditHook ''third'' ''1.1'' exampleStep)]"
    by (simp add: postCallbacks_def auditHook_def failingHook_def)
  have wrap: "WrapPostNode ?items ''1.1'' exampleStep = Some ?hook"
    by (simp add: WrapPostNode_def Let_def postCallbacks_def auditHook_def failingHook_def)
  have first: "?hook [] None None =
      ((None, Some (ErrorString ''second failed'')), [''first'', ''second''])"
    using post_hooks_stop_at_hook_error
      [of ?items "''1.1''" exampleStep ?hook
          "[the (auditHook ''first'' ''1.1'' exampleStep)]"
          "the (failingHook ''second'' ''1.1'' exampleStep)"
          "[the (auditHook ''third'' ''1.1'' exampleStep)]"
          "[]" None None None "[''first'']" None "ErrorString ''second failed''"
          "[''first'', ''second'']"]
      wrap cbs
    by (simp add: auditHook_def failingHook_def)
  have second: "map_option (\<lambda>hook. hook [] (None :: string option) (Some (ErrorString ''node failed'')))
     (WrapPostNode [?rec, auditHook ''after''] ''1.1'' exampleStep) =
     Some ((None, Some (ErrorString ''node failed'')), [])"
    by (simp add: WrapPostNode_def Let_def postCallbacks_def auditHook_def
        ArtifactRecordMiddleware_WrapPostNode_def exampleStep_def)
  show ?thesis
    using first second wrap by simp
qed

text \<open>
  C6 as stated fails: the combined hook does not look at the node error itself. Two
  member hooks that return \<open>(nil, nil)\<close> both run when the node error is non-nil, and
  the combined hook returns no error.
\<close>

theorem post_hooks_node_error_counterexample:
  "map_option (\<lambda>hook. hook [] (None :: string option) (Some (ErrorString ''node failed'')))
     (WrapPostNode [auditHook ''first'', auditHook ''second''] ''1.1'' exampleStep) =
   Some ((None, None), [''first'', ''second''])"
  by (simp add: WrapPostNode_def Let_def postCallbacks_def auditHook_def)

section \<open>Reference validation: results\<close>

lemma those_map_Some: "those (map Some xs) = Some xs"
  by (induction xs) simp_all

lemma knownSteps_fold:
  "foldl (\<lambda>known s. known(Step (Frontmatter s) := True)) k0 ss sid =
   (k0 sid \<or> sid \<in> loaded ss)"
  by (induction ss arbitrary: k0) (auto simp: loaded_def)

lemma knownSteps_iff: "knownSteps ss sid = (sid \<in> loaded ss)"
  by (simp add: knownSteps_def knownSteps_fold)

lemma checkFallback_length:
  "length (checkFallback known sid fb) =
   length (filter (\<lambda>(code, target). target \<noteq> [] \<and> \<not> known target) fb)"
  by (induction known sid fb rule: checkFallback.induct) auto

lemma checkFallback_set:
  "set (checkFallback known sid fb) =
   (\<lambda>(code, target). \<lparr> StepID = sid, Field = ''fallback.'' @ code, Reference = target,
                         Message_v = ''target step does not exist'' \<rparr>) `
     set (filter (\<lambda>(code, target). target \<noteq> [] \<and> \<not> known target) fb)"
  by (induction known sid fb rule: checkFallback.induct) auto

lemma checkStep_length: "length (checkStep (knownSteps ss) s) = violations ss s"
proof -
  have k: "knownSteps ss = (\<lambda>sid. sid \<in> loaded ss)"
    by (rule ext) (rule knownSteps_iff)
  show ?thesis
    unfolding checkStep_def Let_def k violations_def danglingNext_def selfLoop_def
      danglingFallbacks_def
    by (simp add: checkFallback_length)
qed

lemma checkStep_set:
  "set (checkStep (knownSteps ss) s) =
     (if danglingNext ss s
      then {\<lparr> StepID = Step (Frontmatter s), Field = ''next'', Reference = Next (Frontmatter s),
               Message_v = ''target step does not exist'' \<rparr>} else {}) \<union>
     (if selfLoop s
      then {\<lparr> StepID = Step (Frontmatter s), Field = ''next'', Reference = Next (Frontmatter s),
               Message_v = ''self-loop detected'' \<rparr>} else {}) \<union>
     (\<lambda>(code, target). \<lparr> StepID = Step (Frontmatter s), Field = ''fallback.'' @ code,
                           Reference = target, Message_v = ''target step does not exist'' \<rparr>) `
       set (danglingFallbacks ss s)"
proof -
  have k: "knownSteps ss = (\<lambda>sid. sid \<in> loaded ss)"
    by (rule ext) (rule knownSteps_iff)
  show ?thesis
    unfolding checkStep_def Let_def k danglingNext_def selfLoop_def danglingFallbacks_def
    by (auto simp: checkFallback_set)
qed

lemma violations_zero:
  "violations ss s = 0 \<longleftrightarrow>
     (Next (Frontmatter s) \<noteq> [] \<longrightarrow>
        Next (Frontmatter s) \<in> loaded ss \<and> Next (Frontmatter s) \<noteq> Step (Frontmatter s)) \<and>
     (\<forall>(code, target)\<in>set (Fallback (Frontmatter s)). target \<noteq> [] \<longrightarrow> target \<in> loaded ss)"
  by (auto simp: violations_def danglingNext_def selfLoop_def danglingFallbacks_def
      filter_empty_conv)


lemma checkStep_empty: "checkStep (knownSteps ss) s = [] \<longleftrightarrow> violations ss s = 0"
  using checkStep_length [of ss s] by auto

text \<open>
  C7. For every step set (a slice of non-nil step pointers) \<open>ValidateReferences\<close> returns
  a list and does not raise. The list holds one record per violation: for each step, a
  record with \<open>Field = "next"\<close> and the message \<open>target step does not exist\<close> when its
  non-empty \<open>next\<close> names no loaded step, a self-loop record when its non-empty \<open>next\<close> is its
  own id, and one \<open>fallback.<code>\<close> record for each non-empty fallback target that names no
  loaded step; there are no other records, and their number is the number of
  violations. The list is empty exactly when every non-empty \<open>next\<close> and every non-empty
  fallback target names a loaded step and no \<open>next\<close> is the step's own id; an empty
  \<open>next\<close> produces no record.
\<close>

theorem ValidateReferences_sound:
  "\<exists>errs. ValidateReferences (map Some ss) = Ok errs \<and>
     length errs = (\<Sum>s\<leftarrow>ss. violations ss s) \<and>
     set errs =
       (\<Union>s\<in>set ss.
          (if danglingNext ss s
           then {\<lparr> StepID = Step (Frontmatter s), Field = ''next'',
                    Reference = Next (Frontmatter s),
                    Message_v = ''target step does not exist'' \<rparr>} else {}) \<union>
          (if selfLoop s
           then {\<lparr> StepID = Step (Frontmatter s), Field = ''next'',
                    Reference = Next (Frontmatter s),
                    Message_v = ''self-loop detected'' \<rparr>} else {}) \<union>
          (\<lambda>(code, target). \<lparr> StepID = Step (Frontmatter s), Field = ''fallback.'' @ code,
                                Reference = target,
                                Message_v = ''target step does not exist'' \<rparr>) `
            set (danglingFallbacks ss s)) \<and>
     (errs = [] \<longleftrightarrow>
        (\<forall>s\<in>set ss.
           (Next (Frontmatter s) \<noteq> [] \<longrightarrow>
              Next (Frontmatter s) \<in> loaded ss \<and>
              Next (Frontmatter s) \<noteq> Step (Frontmatter s)) \<and>
           (\<forall>(code, target)\<in>set (Fallback (Frontmatter s)).
              target \<noteq> [] \<longrightarrow> target \<in> loaded ss)))"
proof -
  let ?errs = "concat (map (checkStep (knownSteps ss)) ss)"
  have run: "ValidateReferences (map Some ss) = Ok ?errs"
    by (simp add: ValidateReferences_def those_map_Some)
  have len: "length ?errs = (\<Sum>s\<leftarrow>ss. violations ss s)"
    by (simp add: length_concat comp_def checkStep_length)
  have "?errs = [] \<longleftrightarrow> (\<forall>s\<in>set ss. violations ss s = 0)"
    by (simp add: checkStep_empty)
  then have empty: "?errs = [] \<longleftrightarrow>
        (\<forall>s\<in>set ss.
           (Next (Frontmatter s) \<noteq> [] \<longrightarrow>
              Next (Frontmatter s) \<in> loaded ss \<and>
              Next (Frontmatter s) \<noteq> Step (Frontmatter s)) \<and>
           (\<forall>(code, target)\<in>set (Fallback (Frontmatter s)).
              target \<noteq> [] \<longrightarrow> target \<in> loaded ss))"
    by (simp only: violations_zero)
  have "set ?errs = (\<Union>s\<in>set ss. set (checkStep (knownSteps ss) s))"
    by simp
  then have elems: "set ?errs =
       (\<Union>s\<in>set ss.
          (if danglingNext ss s
           then {\<lparr> StepID = Step (Frontmatter s), Field = ''next'',
                    Reference = Next (Frontmatter s),
                    Message_v = ''target step does not exist'' \<rparr>} else {}) \<union>
          (if selfLoop s
           then {\<lparr> StepID = Step (Frontmatter s), Field = ''next'',
                    Reference = Next (Frontmatter s),
                    Message_v = ''self-loop detected'' \<rparr>} else {}) \<union>
          (\<lambda>(code, target). \<lparr> StepID = Step (Frontmatter s), Field = ''fallback.'' @ code,
                                Reference = target,
                                Message_v = ''target step does not exist'' \<rparr>) `
            set (danglingFallbacks ss s))"
    by (simp only: checkStep_set)
  show ?thesis
  proof (intro exI [of _ ?errs] conjI)
    show "ValidateReferences (map Some ss) = Ok ?errs" by (rule run)
  qed (rule len, rule elems, rule empty)
qed

text \<open>
  Scenario S5 (a dangling \<open>next\<close>) and the valid step set of the package's tests.
\<close>

theorem ValidateReferences_sound_witness:
  "ValidateReferences [Some (stepOf ''1.1'' ''9.9'' [])] =
     Ok [\<lparr> StepID = ''1.1'', Field = ''next'', Reference = ''9.9'',
            Message_v = ''target step does not exist'' \<rparr>] \<and>
   ValidateReferences
     [Some (stepOf ''1.1'' ''1.2'' []),
      Some (stepOf ''1.2'' ''2.1'' [(''default'', ''1.1'')]),
      Some (stepOf ''2.1'' [] [])] = Ok []"
proof -
  let ?ss = "[stepOf ''1.1'' ''1.2'' [], stepOf ''1.2'' ''2.1'' [(''default'', ''1.1'')],
              stepOf ''2.1'' [] []]"
  obtain errs where run: "ValidateReferences (map Some ?ss) = Ok errs"
    and empty: "errs = [] \<longleftrightarrow>
        (\<forall>s\<in>set ?ss.
           (Next (Frontmatter s) \<noteq> [] \<longrightarrow>
              Next (Frontmatter s) \<in> loaded ?ss \<and>
              Next (Frontmatter s) \<noteq> Step (Frontmatter s)) \<and>
           (\<forall>(code, target)\<in>set (Fallback (Frontmatter s)).
              target \<noteq> [] \<longrightarrow> target \<in> loaded ?ss))"
    using ValidateReferences_sound [of ?ss] by (elim exE conjE) (rule that)
  have "errs = []"
    unfolding empty by (simp add: stepOf_def loaded_def)
  with run have valid: "ValidateReferences (map Some ?ss) = Ok []"
    by simp
  have dangling: "ValidateReferences [Some (stepOf ''1.1'' ''9.9'' [])] =
     Ok [\<lparr> StepID = ''1.1'', Field = ''next'', Reference = ''9.9'',
            Message_v = ''target step does not exist'' \<rparr>]"
    by (simp add: ValidateReferences_def checkStep_def knownSteps_def stepOf_def Let_def)
  show ?thesis
    using valid dangling by simp
qed

section \<open>Artifact tracker: results\<close>

lemma update_values:
  "(k', a') \<in> set (AList.update k a m) \<Longrightarrow> a' = a \<or> (k', a') \<in> set m"
  by (induction m) (auto split: if_splits)

lemma map_of_value: "map_of m k = Some a \<Longrightarrow> a \<in> snd ` set m"
  by (force dest: map_of_SomeD)

lemma tracker_invI:
  assumes "data t < free h" "tables h (data t) = Some m"
    "\<And>a. a \<in> snd ` set m \<Longrightarrow> a < free h \<and> infos h a \<noteq> None \<and> a \<notin> set (heldInfos c)"
    "\<And>p. p \<in> set (heldInfos c) \<Longrightarrow> p < free h"
    "\<And>q. q \<in> set (heldTables c) \<Longrightarrow> q < free h \<and> q \<noteq> data t"
  shows "tracker_inv t (h, c)"
  using assms unfolding tracker_inv_def by auto

lemma tracker_invD:
  "tracker_inv t (h, c) \<Longrightarrow>
   \<exists>m. data t < free h \<and> tables h (data t) = Some m \<and>
       (\<forall>a\<in>snd ` set m. a < free h \<and> infos h a \<noteq> None \<and> a \<notin> set (heldInfos c)) \<and>
       (\<forall>p\<in>set (heldInfos c). p < free h) \<and>
       (\<forall>q\<in>set (heldTables c). q < free h \<and> q \<noteq> data t)"
  unfolding tracker_inv_def by simp

lemma view_table: "tables h (data t) = Some m \<Longrightarrow>
  view t h k = (case map_of m k of None \<Rightarrow> None | Some a \<Rightarrow> infos h a)"
  by (simp add: view_def)

text \<open>
  Each operation keeps the separation and changes the tracker's content only as
  \<open>recorded\<close> says: \<open>RecordCompleted\<close> first, then the two reads and the client's writes.
\<close>

lemma exec_Record:
  assumes inv: "tracker_inv t (h, c)"
  shows "\<exists>h'. exec t (Record stepID title outputPath) (h, c) = Ok (h', c) \<and>
           tracker_inv t (h', c) \<and>
           view t h' = recorded t [Record stepID title outputPath] (view t h)"
proof -
  from tracker_invD [OF inv] obtain m where wf0: "data t < free h" "tables h (data t) = Some m"
    "\<forall>a\<in>snd ` set m. a < free h \<and> infos h a \<noteq> None \<and> a \<notin> set (heldInfos c)"
    "\<forall>p\<in>set (heldInfos c). p < free h"
    "\<forall>q\<in>set (heldTables c). q < free h \<and> q \<noteq> data t"
    by blast
  note wf = wf0 [rule_format]
  show ?thesis
  proof (cases "Stat (fs t) outputPath")
    case None
    then show ?thesis using inv by (simp add: RecordCompleted_def)
  next
    case (Some info)
    show ?thesis
    proof (cases "IsDir info")
      case True
      then show ?thesis using inv Some by (simp add: RecordCompleted_def)
    next
      case False
      let ?r = "recordOf t stepID title outputPath info"
      let ?h' = "h\<lparr> infos := (infos h)(free h \<mapsto> ?r), free := Suc (free h),
                     tables := (tables h)(data t \<mapsto> AList.update stepID (free h) m) \<rparr>"
      have run: "exec t (Record stepID title outputPath) (h, c) = Ok (?h', c)"
        using Some False wf(2) by (simp add: RecordCompleted_def Let_def recordOf_def)
      have inv': "tracker_inv t (?h', c)"
      proof (rule tracker_invI [where m = "AList.update stepID (free h) m"])
        show "data t < free ?h'" using wf(1) by simp
        show "tables ?h' (data t) = Some (AList.update stepID (free h) m)" by simp
        show "a < free ?h' \<and> infos ?h' a \<noteq> None \<and> a \<notin> set (heldInfos c)"
          if "a \<in> snd ` set (AList.update stepID (free h) m)" for a
        proof -
          from that obtain k where "(k, a) \<in> set (AList.update stepID (free h) m)" by auto
          then have "a = free h \<or> (k, a) \<in> set m" by (rule update_values)
          then show ?thesis
          proof
            assume "a = free h"
            then show ?thesis using wf(4) by auto
          next
            assume "(k, a) \<in> set m"
            then have "a \<in> snd ` set m" by force
            from wf(3) [OF this] show ?thesis by auto
          qed
        qed
        show "p < free ?h'" if "p \<in> set (heldInfos c)" for p
          using wf(4) [OF that] by simp
        show "q < free ?h' \<and> q \<noteq> data t" if "q \<in> set (heldTables c)" for q
          using wf(5) [OF that] by simp
      qed
      have "view t ?h' k = ((view t h)(stepID \<mapsto> ?r)) k" for k
      proof (cases "k = stepID")
        case True
        then show ?thesis by (simp add: view_def update_conv')
      next
        case False
        show ?thesis
        proof (cases "map_of m k")
          case None
          then show ?thesis using False wf(2) by (simp add: view_def update_conv')
        next
          case (Some a)
          then have "a \<in> snd ` set m" by (rule map_of_value)
          from wf(3) [OF this] have "a \<noteq> free h" by auto
          then show ?thesis using False Some wf(2) by (simp add: view_def update_conv')
        qed
      qed
      then have "view t ?h' = (view t h)(stepID \<mapsto> ?r)" by (rule ext)
      then have "view t ?h' = recorded t [Record stepID title outputPath] (view t h)"
        using Some False by simp
      with run inv' show ?thesis by blast
    qed
  qed
qed


lemma GetArtifact_inv:
  assumes inv: "tracker_inv t (h, c)"
  shows "\<exists>p h'. GetArtifact t stepID h = Ok (p, h') \<and>
           (case p of None \<Rightarrow> view t h stepID = None
            | Some a \<Rightarrow> infos h' a = view t h stepID \<and> view t h stepID \<noteq> None) \<and>
           view t h' = view t h \<and>
           tracker_inv t (h', c\<lparr> heldInfos := heldInfos c @ (case p of None \<Rightarrow> [] | Some a \<Rightarrow> [a]) \<rparr>)"
proof -
  from tracker_invD [OF inv] obtain m where wf0: "data t < free h" "tables h (data t) = Some m"
    "\<forall>a\<in>snd ` set m. a < free h \<and> infos h a \<noteq> None \<and> a \<notin> set (heldInfos c)"
    "\<forall>p\<in>set (heldInfos c). p < free h"
    "\<forall>q\<in>set (heldTables c). q < free h \<and> q \<noteq> data t"
    by blast
  note wf = wf0 [rule_format]
  show ?thesis
  proof (cases "map_of m stepID")
    case None
    then show ?thesis using inv wf(2) by (simp add: GetArtifact_def view_def)
  next
    case (Some a)
    then have a: "a \<in> snd ` set m" by (rule map_of_value)
    from wf(3) [OF a] obtain info where info: "infos h a = Some info" and alt: "a < free h"
      by auto
    let ?h' = "h\<lparr> infos := (infos h)(free h \<mapsto> info), free := Suc (free h) \<rparr>"
    have run: "GetArtifact t stepID h = Ok (Some (free h), ?h')"
      using wf(2) Some info by (simp add: GetArtifact_def)
    have same: "infos ?h' b = infos h b" if "b \<in> snd ` set m" for b
      using wf(3) [OF that] by auto
    have v: "view t ?h' k = view t h k" for k
    proof (cases "map_of m k")
      case None
      then show ?thesis using wf(2) by (simp add: view_def)
    next
      case (Some b)
      then have "b \<in> snd ` set m" by (rule map_of_value)
      from same [OF this] show ?thesis using Some wf(2) by (simp add: view_def)
    qed
    have vv: "view t ?h' = view t h" using v by (rule ext)
    have content: "infos ?h' (free h) = view t h stepID \<and> view t h stepID \<noteq> None"
      using wf(2) Some info by (simp add: view_def)
    have inv': "tracker_inv t (?h', c\<lparr> heldInfos := heldInfos c @ [free h] \<rparr>)"
    proof (rule tracker_invI [where m = m])
      show "data t < free ?h'" using wf(1) by simp
      show "tables ?h' (data t) = Some m" using wf(2) by simp
      show "b < free ?h' \<and> infos ?h' b \<noteq> None \<and>
            b \<notin> set (heldInfos (c\<lparr> heldInfos := heldInfos c @ [free h] \<rparr>))"
        if "b \<in> snd ` set m" for b
        using wf(3) [OF that] by auto
      show "p < free ?h'" if "p \<in> set (heldInfos (c\<lparr> heldInfos := heldInfos c @ [free h] \<rparr>))" for p
        using that wf(4) [of p] by auto
      show "q < free ?h' \<and> q \<noteq> data t"
        if "q \<in> set (heldTables (c\<lparr> heldInfos := heldInfos c @ [free h] \<rparr>))" for q
        using that wf(5) [of q] by auto
    qed
    show ?thesis
      using run content vv inv' by simp
  qed
qed

lemma exec_WriteInfo:
  assumes inv: "tracker_inv t (h, c)"
  shows "\<exists>h'. exec t (WriteInfo i v) (h, c) = Ok (h', c) \<and> tracker_inv t (h', c) \<and>
           view t h' = view t h"
proof (cases "i < length (heldInfos c)")
  case False
  then show ?thesis using inv by simp
next
  case True
  from tracker_invD [OF inv] obtain m where wf0: "data t < free h" "tables h (data t) = Some m"
    "\<forall>a\<in>snd ` set m. a < free h \<and> infos h a \<noteq> None \<and> a \<notin> set (heldInfos c)"
    "\<forall>p\<in>set (heldInfos c). p < free h"
    "\<forall>q\<in>set (heldTables c). q < free h \<and> q \<noteq> data t"
    by blast
  note wf = wf0 [rule_format]
  let ?p = "heldInfos c ! i"
  let ?h' = "h\<lparr> infos := (infos h)(?p \<mapsto> v) \<rparr>"
  have held: "?p \<in> set (heldInfos c)" using True by simp
  have same: "infos ?h' b = infos h b" if "b \<in> snd ` set m" for b
    using wf(3) [OF that] held by auto
  have v: "view t ?h' k = view t h k" for k
  proof (cases "map_of m k")
    case None
    then show ?thesis using wf(2) by (simp add: view_def)
  next
    case (Some b)
    then have "b \<in> snd ` set m" by (rule map_of_value)
    from same [OF this] show ?thesis using Some wf(2) by (simp add: view_def)
  qed
  have vv: "view t ?h' = view t h" using v by (rule ext)
  have inv': "tracker_inv t (?h', c)"
  proof (rule tracker_invI [where m = m])
    show "data t < free ?h'" using wf(1) by simp
    show "tables ?h' (data t) = Some m" using wf(2) by simp
    show "b < free ?h' \<and> infos ?h' b \<noteq> None \<and> b \<notin> set (heldInfos c)"
      if "b \<in> snd ` set m" for b
      using wf(3) [OF that] same [OF that] by auto
    show "p < free ?h'" if "p \<in> set (heldInfos c)" for p
      using wf(4) [OF that] by simp
    show "q < free ?h' \<and> q \<noteq> data t" if "q \<in> set (heldTables c)" for q
      using wf(5) [OF that] by simp
  qed
  show ?thesis using True vv inv' by simp
qed

lemma exec_WriteTable:
  assumes inv: "tracker_inv t (h, c)"
  shows "\<exists>h'. exec t (WriteTable i m') (h, c) = Ok (h', c) \<and> tracker_inv t (h', c) \<and>
           view t h' = view t h"
proof (cases "i < length (heldTables c)")
  case False
  then show ?thesis using inv by simp
next
  case True
  from tracker_invD [OF inv] obtain m where wf0: "data t < free h" "tables h (data t) = Some m"
    "\<forall>a\<in>snd ` set m. a < free h \<and> infos h a \<noteq> None \<and> a \<notin> set (heldInfos c)"
    "\<forall>p\<in>set (heldInfos c). p < free h"
    "\<forall>q\<in>set (heldTables c). q < free h \<and> q \<noteq> data t"
    by blast
  note wf = wf0 [rule_format]
  let ?q = "heldTables c ! i"
  let ?h' = "h\<lparr> tables := (tables h)(?q \<mapsto> m') \<rparr>"
  have held: "?q \<in> set (heldTables c)" using True by simp
  from wf(5) [OF held] have apart: "?q \<noteq> data t" by simp
  have vv: "view t ?h' = view t h"
    using apart by (simp add: view_def cong: option.case_cong)
  have inv': "tracker_inv t (?h', c)"
  proof (rule tracker_invI [where m = m])
    show "data t < free ?h'" using wf(1) by simp
    show "tables ?h' (data t) = Some m" using wf(2) apart by simp
    show "b < free ?h' \<and> infos ?h' b \<noteq> None \<and> b \<notin> set (heldInfos c)"
      if "b \<in> snd ` set m" for b
      using wf(3) [OF that] by simp
    show "p < free ?h'" if "p \<in> set (heldInfos c)" for p
      using wf(4) [OF that] by simp
    show "q < free ?h' \<and> q \<noteq> data t" if "q \<in> set (heldTables c)" for q
      using wf(5) [OF that] by simp
  qed
  show ?thesis using True vv inv' by simp
qed

text \<open>
  The copying loop of \<open>GetAll\<close> allocates one new cell per entry, above every address in
  use, and leaves the cells and maps that existed before as they were.
\<close>

lemma copyEntries_ok:
  assumes "\<forall>a\<in>snd ` set m. a < free h \<and> infos h a \<noteq> None"
  shows "\<exists>out h'. copyEntries m h = Ok (out, h') \<and>
           free h' = free h + length m \<and> tables h' = tables h \<and>
           (\<forall>a<free h. infos h' a = infos h a) \<and>
           map snd out = [free h ..< free h + length m] \<and>
           (\<forall>k. case map_of out k of
                  None \<Rightarrow> map_of m k = None
                | Some p \<Rightarrow> (\<exists>a. map_of m k = Some a \<and> infos h' p = infos h a))"
  using assms
proof (induction m arbitrary: h)
  case Nil
  then show ?case by simp
next
  case (Cons e entries)
  obtain k0 v where e: "e = (k0, v)" by (cases e)
  from Cons.prems e obtain info where v: "v < free h" "infos h v = Some info"
    by auto
  let ?h1 = "h\<lparr> infos := (infos h)(free h \<mapsto> info), free := Suc (free h) \<rparr>"
  have old: "infos ?h1 a = infos h a" if "a < free h" for a
    using that by simp
  have pre: "\<forall>a\<in>snd ` set entries. a < free ?h1 \<and> infos ?h1 a \<noteq> None"
    using Cons.prems by auto
  from Cons.IH [OF pre] obtain out' h' where ih:
    "copyEntries entries ?h1 = Ok (out', h')"
    "free h' = free ?h1 + length entries"
    "tables h' = tables ?h1"
    "\<forall>a<free ?h1. infos h' a = infos ?h1 a"
    "map snd out' = [free ?h1 ..< free ?h1 + length entries]"
    "\<forall>k. case map_of out' k of
            None \<Rightarrow> map_of entries k = None
          | Some p \<Rightarrow> (\<exists>a. map_of entries k = Some a \<and> infos h' p = infos ?h1 a)"
    by blast
  have run: "copyEntries (e # entries) h = Ok ((k0, free h) # out', h')"
    using e v ih(1) by simp
  have fr: "free h' = free h + length (e # entries)"
    using ih(2) by simp
  have tb: "tables h' = tables h"
    using ih(3) by simp
  have keep: "\<forall>a<free h. infos h' a = infos h a"
    using ih(4) by auto
  have split: "[free h ..< free h + length (e # entries)] =
      free h # [free ?h1 ..< free ?h1 + length entries]"
    by (subst upt_conv_Cons) simp_all
  have addrs: "map snd ((k0, free h) # out') = [free h ..< free h + length (e # entries)]"
    unfolding split by (simp only: list.map snd_conv ih(5))
  have new: "infos h' (free h) = Some info"
    using ih(4) by simp
  have look: "case map_of ((k0, free h) # out') k of
            None \<Rightarrow> map_of (e # entries) k = None
          | Some p \<Rightarrow> (\<exists>a. map_of (e # entries) k = Some a \<and> infos h' p = infos h a)" for k
  proof (cases "k = k0")
    case True
    then show ?thesis using e v new by simp
  next
    case False
    show ?thesis
    proof (cases "map_of out' k")
      case None
      with ih(6) [rule_format, of k] False e show ?thesis by simp
    next
      case (Some p)
      with ih(6) [rule_format, of k] obtain a where a: "map_of entries k = Some a"
        "infos h' p = infos ?h1 a" by auto
      from a(1) have "a \<in> snd ` set entries" by (rule map_of_value)
      with Cons.prems have "a < free h" by auto
      then have "infos ?h1 a = infos h a" by simp
      with a Some False e show ?thesis by simp
    qed
  qed
  show ?case
    using run fr tb keep addrs look by blast
qed


lemma GetAll_inv:
  assumes inv: "tracker_inv t (h, c)"
  shows "\<exists>h' out. GetAll t h = Ok (free h, h') \<and> tables h' (free h) = Some out \<and>
           (\<forall>k. (case map_of out k of None \<Rightarrow> None | Some p \<Rightarrow> infos h' p) = view t h k) \<and>
           view t h' = view t h \<and>
           tracker_inv t (h', c\<lparr> heldInfos := heldInfos c @ map snd out,
                                 heldTables := heldTables c @ [free h] \<rparr>)"
proof -
  from tracker_invD [OF inv] obtain m where wf0: "data t < free h" "tables h (data t) = Some m"
    "\<forall>a\<in>snd ` set m. a < free h \<and> infos h a \<noteq> None \<and> a \<notin> set (heldInfos c)"
    "\<forall>p\<in>set (heldInfos c). p < free h"
    "\<forall>q\<in>set (heldTables c). q < free h \<and> q \<noteq> data t"
    by blast
  note wf = wf0 [rule_format]
  let ?q = "free h"
  let ?h1 = "h\<lparr> tables := (tables h)(?q \<mapsto> []), free := Suc ?q \<rparr>"
  have pre: "\<forall>a\<in>snd ` set m. a < free ?h1 \<and> infos ?h1 a \<noteq> None"
    using wf0(3) by auto
  from copyEntries_ok [OF pre] obtain out h2 where cp:
    "copyEntries m ?h1 = Ok (out, h2)"
    "free h2 = free ?h1 + length m"
    "tables h2 = tables ?h1"
    "\<forall>a<free ?h1. infos h2 a = infos ?h1 a"
    "map snd out = [free ?h1 ..< free ?h1 + length m]"
    "\<forall>k. case map_of out k of
            None \<Rightarrow> map_of m k = None
          | Some p \<Rightarrow> (\<exists>a. map_of m k = Some a \<and> infos h2 p = infos ?h1 a)"
    by blast
  let ?h' = "h2\<lparr> tables := (tables h2)(?q \<mapsto> out) \<rparr>"
  have run: "GetAll t h = Ok (?q, ?h')"
    using wf(2) cp(1) by (simp add: GetAll_def Let_def)
  have apart: "?q \<noteq> data t" using wf(1) by simp
  have tab: "tables ?h' (data t) = Some m"
    using apart wf(2) cp(3) by simp
  have same: "infos ?h' a = infos h a" if "a \<in> snd ` set m" for a
  proof -
    from wf(3) [OF that] have "a < free ?h1" by simp
    with cp(4) show ?thesis by simp
  qed
  have v: "view t ?h' k = view t h k" for k
  proof (cases "map_of m k")
    case None
    then show ?thesis using wf(2) tab by (simp add: view_def)
  next
    case (Some a)
    then have "a \<in> snd ` set m" by (rule map_of_value)
    from same [OF this] show ?thesis using Some wf(2) tab by (simp add: view_def)
  qed
  have vv: "view t ?h' = view t h" using v by (rule ext)
  have content: "(case map_of out k of None \<Rightarrow> None | Some p \<Rightarrow> infos ?h' p) = view t h k" for k
  proof (cases "map_of out k")
    case None
    with cp(6) [rule_format, of k] show ?thesis using wf(2) by (simp add: view_def)
  next
    case (Some p)
    with cp(6) [rule_format, of k] obtain a where a: "map_of m k = Some a"
      "infos h2 p = infos ?h1 a" by auto
    then show ?thesis using Some wf(2) by (simp add: view_def)
  qed
  have newp: "Suc ?q \<le> p \<and> p < free h2" if "p \<in> set (map snd out)" for p
    using that unfolding cp(5) cp(2) by auto
  have inv': "tracker_inv t (?h', c\<lparr> heldInfos := heldInfos c @ map snd out,
                                      heldTables := heldTables c @ [?q] \<rparr>)"
  proof (rule tracker_invI [where m = m])
    show "data t < free ?h'" using wf(1) cp(2) by simp
    show "tables ?h' (data t) = Some m" by (rule tab)
    show "a < free ?h' \<and> infos ?h' a \<noteq> None \<and>
          a \<notin> set (heldInfos (c\<lparr> heldInfos := heldInfos c @ map snd out,
                                   heldTables := heldTables c @ [?q] \<rparr>))"
      if "a \<in> snd ` set m" for a
    proof -
      from wf(3) [OF that] have a: "a < free h" "infos h a \<noteq> None" "a \<notin> set (heldInfos c)"
        by auto
      have "a \<notin> set (map snd out)"
        using newp [of a] a(1) by auto
      then show ?thesis
        using a same [OF that] cp(2) by auto
    qed
    show "p < free ?h'"
      if "p \<in> set (heldInfos (c\<lparr> heldInfos := heldInfos c @ map snd out,
                                    heldTables := heldTables c @ [?q] \<rparr>))" for p
    proof -
      from that have "p \<in> set (heldInfos c) \<or> p \<in> set (map snd out)" by auto
      then show ?thesis
      proof
        assume "p \<in> set (heldInfos c)"
        from wf(4) [OF this] show ?thesis using cp(2) by simp
      next
        assume "p \<in> set (map snd out)"
        from newp [OF this] show ?thesis by simp
      qed
    qed
    show "q < free ?h' \<and> q \<noteq> data t"
      if "q \<in> set (heldTables (c\<lparr> heldInfos := heldInfos c @ map snd out,
                                     heldTables := heldTables c @ [?q] \<rparr>))" for q
    proof -
      from that have "q \<in> set (heldTables c) \<or> q = ?q" by auto
      then show ?thesis
      proof
        assume "q \<in> set (heldTables c)"
        from wf(5) [OF this] show ?thesis using cp(2) by simp
      next
        assume "q = ?q"
        then show ?thesis using apart cp(2) by simp
      qed
    qed
  qed
  have "tables ?h' ?q = Some out" by simp
  with run content vv inv' show ?thesis by blast
qed

lemma recorded_Cons: "recorded t (op # ops) r = recorded t ops (recorded t [op] r)"
  by (cases op) (simp_all split: option.splits)

lemma recorded_filter: "recorded t (filter (\<lambda>op. \<not> isWrite op) ops) r = recorded t ops r"
proof (induction ops arbitrary: r)
  case Nil
  then show ?case by simp
next
  case (Cons op ops)
  show ?case
  proof (cases "isWrite op")
    case True
    then have "recorded t (op # ops) r = recorded t ops r"
      by (cases op) (simp_all add: isWrite_def)
    with True Cons.IH show ?thesis by simp
  next
    case False
    then have "recorded t (filter (\<lambda>op. \<not> isWrite op) (op # ops)) r =
          recorded t (op # filter (\<lambda>op. \<not> isWrite op) ops) r"
      by simp
    also have "\<dots> = recorded t (filter (\<lambda>op. \<not> isWrite op) ops) (recorded t [op] r)"
      by (rule recorded_Cons)
    also have "\<dots> = recorded t ops (recorded t [op] r)"
      by (rule Cons.IH)
    also have "\<dots> = recorded t (op # ops) r"
      by (rule recorded_Cons [symmetric])
    finally show ?thesis .
  qed
qed

lemma exec_inv:
  assumes inv: "tracker_inv t s"
  shows "\<exists>s'. exec t op s = Ok s' \<and> tracker_inv t s' \<and>
           view t (fst s') = recorded t [op] (view t (fst s))"
proof -
  obtain h c where s: "s = (h, c)" by (cases s)
  note inv' = inv [unfolded s]
  show ?thesis
  proof (cases op)
    case (Record stepID title outputPath)
    from exec_Record [OF inv', of stepID title outputPath] show ?thesis
      unfolding s Record by auto
  next
    case (Get stepID)
    from GetArtifact_inv [OF inv', of stepID] obtain p h' where g:
      "GetArtifact t stepID h = Ok (p, h')" "view t h' = view t h"
      "tracker_inv t (h', c\<lparr> heldInfos := heldInfos c @ (case p of None \<Rightarrow> [] | Some a \<Rightarrow> [a]) \<rparr>)"
      by blast
    show ?thesis
      unfolding s Get using g by (cases p) simp_all
  next
    case GetAllOp
    from GetAll_inv [OF inv'] obtain h' out where g:
      "GetAll t h = Ok (free h, h')" "tables h' (free h) = Some out" "view t h' = view t h"
      "tracker_inv t (h', c\<lparr> heldInfos := heldInfos c @ map snd out,
                             heldTables := heldTables c @ [free h] \<rparr>)"
      by blast
    show ?thesis
      unfolding s GetAllOp using g by simp
  next
    case (WriteInfo i v)
    from exec_WriteInfo [OF inv', of i v] show ?thesis
      unfolding s WriteInfo by auto
  next
    case (WriteTable i m)
    from exec_WriteTable [OF inv', of i m] show ?thesis
      unfolding s WriteTable by auto
  qed
qed

lemma run_inv:
  "tracker_inv t s \<Longrightarrow>
   \<exists>s'. run t ops s = Ok s' \<and> tracker_inv t s' \<and>
        view t (fst s') = recorded t ops (view t (fst s))"
proof (induction ops arbitrary: s)
  case Nil
  then show ?case by simp
next
  case (Cons op ops)
  from exec_inv [OF Cons.prems, of op] obtain s1 where s1:
    "exec t op s = Ok s1" "tracker_inv t s1"
    "view t (fst s1) = recorded t [op] (view t (fst s))"
    by blast
  from Cons.IH [OF s1(2)] obtain s' where s':
    "run t ops s1 = Ok s'" "tracker_inv t s'"
    "view t (fst s') = recorded t ops (view t (fst s1))"
    by blast
  have "view t (fst s') = recorded t (op # ops) (view t (fst s))"
    using s'(3) s1(3) recorded_Cons [of t op ops] by simp
  with s1(1) s'(1) s'(2) show ?case by simp
qed

lemma reads_inv:
  assumes inv: "tracker_inv t (h, c)"
  shows "readArtifact t stepID h = Ok (view t h stepID)" and "readAll t h = Ok (view t h)"
proof -
  from GetArtifact_inv [OF inv, of stepID] obtain p h' where g:
    "GetArtifact t stepID h = Ok (p, h')"
    "case p of None \<Rightarrow> view t h stepID = None
     | Some a \<Rightarrow> infos h' a = view t h stepID \<and> view t h stepID \<noteq> None"
    by blast
  then show "readArtifact t stepID h = Ok (view t h stepID)"
    by (cases p) (simp_all add: readArtifact_def)
  from GetAll_inv [OF inv] obtain h'' out where a:
    "GetAll t h = Ok (free h, h'')" "tables h'' (free h) = Some out"
    "\<forall>k. (case map_of out k of None \<Rightarrow> None | Some p \<Rightarrow> infos h'' p) = view t h k"
    by blast
  have "(\<lambda>k. case map_of out k of None \<Rightarrow> None | Some p \<Rightarrow> infos h'' p) = view t h"
    using a(3) by (intro ext) simp
  then show "readAll t h = Ok (view t h)"
    using a(1,2) by (simp add: readAll_def)
qed

lemma NewFileTracker_inv:
  assumes "NewFileTracker fsys emptyHeap = (t, h0)"
  shows "tracker_inv t (h0, \<lparr> heldInfos = [], heldTables = [] \<rparr>)" and "view t h0 = Map.empty"
  using assms by (auto simp: NewFileTracker_def emptyHeap_def tracker_inv_def view_def)

text \<open>
  C8. For a tracker made by \<open>NewFileTracker\<close> and every sequence of operations of a
  client (calls of \<open>RecordCompleted\<close>, \<open>GetArtifact\<close> and \<open>GetAll\<close>, assignments through
  any pointer the tracker has returned, and arbitrary changes of any map it has
  returned): the sequence runs without a panic, and what \<open>GetArtifact\<close> and \<open>GetAll\<close>
  return afterwards, read through the returned pointer and map, is what they return
  after the same sequence with all the client's writes left out; it is the set of
  records the \<open>RecordCompleted\<close> calls stored, last write per step id.
\<close>

theorem tracker_reads_are_copies:
  assumes new: "NewFileTracker fsys emptyHeap = (t, h0)"
  shows "\<exists>h c h' c'.
      run t ops (h0, \<lparr> heldInfos = [], heldTables = [] \<rparr>) = Ok (h, c) \<and>
      run t (filter (\<lambda>op. \<not> isWrite op) ops) (h0, \<lparr> heldInfos = [], heldTables = [] \<rparr>) =
        Ok (h', c') \<and>
      (\<forall>stepID. readArtifact t stepID h = readArtifact t stepID h' \<and>
                 readArtifact t stepID h = Ok (recorded t ops Map.empty stepID)) \<and>
      readAll t h = readAll t h' \<and>
      readAll t h = Ok (recorded t ops Map.empty)"
proof -
  let ?s0 = "(h0, \<lparr> heldInfos = [], heldTables = [] \<rparr>)"
  have inv0: "tracker_inv t ?s0" and v0: "view t h0 = Map.empty"
    using NewFileTracker_inv [OF new] by simp_all
  from run_inv [OF inv0, of ops] obtain s where s:
    "run t ops ?s0 = Ok s" "tracker_inv t s" "view t (fst s) = recorded t ops Map.empty"
    using v0 by auto
  from run_inv [OF inv0, of "filter (\<lambda>op. \<not> isWrite op) ops"] obtain s' where s':
    "run t (filter (\<lambda>op. \<not> isWrite op) ops) ?s0 = Ok s'" "tracker_inv t s'"
    "view t (fst s') = recorded t ops Map.empty"
    using v0 by (auto simp: recorded_filter)
  obtain h c where hc: "s = (h, c)" by (cases s)
  obtain h' c' where hc': "s' = (h', c')" by (cases s')
  have r: "readArtifact t stepID h = Ok (recorded t ops Map.empty stepID)" for stepID
    using reads_inv(1) [OF s(2) [unfolded hc], of stepID] s(3) hc by simp
  have r': "readArtifact t stepID h' = Ok (recorded t ops Map.empty stepID)" for stepID
    using reads_inv(1) [OF s'(2) [unfolded hc'], of stepID] s'(3) hc' by simp
  have a: "readAll t h = Ok (recorded t ops Map.empty)"
    using reads_inv(2) [OF s(2) [unfolded hc]] s(3) hc by simp
  have a': "readAll t h' = Ok (recorded t ops Map.empty)"
    using reads_inv(2) [OF s'(2) [unfolded hc']] s'(3) hc' by simp
  show ?thesis
  proof (intro exI conjI allI)
    show "run t ops ?s0 = Ok (h, c)" using s(1) hc by simp
    show "run t (filter (\<lambda>op. \<not> isWrite op) ops) ?s0 = Ok (h', c')" using s'(1) hc' by simp
    show "readArtifact t stepID h = readArtifact t stepID h'" for stepID
      using r r' by simp
    show "readArtifact t stepID h = Ok (recorded t ops Map.empty stepID)" for stepID
      by (rule r)
    show "readAll t h = readAll t h'" using a a' by simp
    show "readAll t h = Ok (recorded t ops Map.empty)" by (rule a)
  qed
qed

text \<open>
  The example session: the client's writes do land in the copies it holds.
\<close>

lemma example_run:
  "(case run \<lparr> fs = exampleFS, data = 0 \<rparr> exampleSession
          (snd (NewFileTracker exampleFS emptyHeap), \<lparr> heldInfos = [], heldTables = [] \<rparr>) of
      Ok (h, c) \<Rightarrow> infos h 2 = Some tampered \<and> infos h 4 = Some tampered \<and>
                   tables h 3 = Some [] \<and> heldInfos c = [2, 4] \<and> heldTables c = [3]
    | Err e \<Rightarrow> False
    | Panic \<Rightarrow> False)"
  by (simp add: exampleSession_def NewFileTracker_def emptyHeap_def exampleFS_def
      RecordCompleted_def GetArtifact_def GetAll_def countLines_def Let_def)


text \<open>
  After the example session the client's copies (cells 2 and 4) hold the overwritten
  record and its map (3) is empty, while both reads still return the stored record.
\<close>

theorem tracker_reads_are_copies_witness:
  "(case run \<lparr> fs = exampleFS, data = 0 \<rparr> exampleSession
          (snd (NewFileTracker exampleFS emptyHeap), \<lparr> heldInfos = [], heldTables = [] \<rparr>) of
      Ok (h, c) \<Rightarrow>
        infos h 2 = Some tampered \<and> infos h 4 = Some tampered \<and> tables h 3 = Some [] \<and>
        readArtifact \<lparr> fs = exampleFS, data = 0 \<rparr> ''1.1'' h =
          Ok (Some \<lparr> StepID_a = ''1.1'', Title_a = ''Outline'', FilePath = ''docs/a.md'',
                     Status = ''completed'', Summary = [], LineCount = 2, CreatedAt = 7 \<rparr>) \<and>
        readAll \<lparr> fs = exampleFS, data = 0 \<rparr> h =
          Ok [''1.1'' \<mapsto> \<lparr> StepID_a = ''1.1'', Title_a = ''Outline'', FilePath = ''docs/a.md'',
                            Status = ''completed'', Summary = [], LineCount = 2, CreatedAt = 7 \<rparr>]
    | Err e \<Rightarrow> False
    | Panic \<Rightarrow> False)"
proof -
  let ?t = "\<lparr> fs = exampleFS, data = 0 \<rparr>"
  let ?h0 = "snd (NewFileTracker exampleFS emptyHeap)"
  have new: "NewFileTracker exampleFS emptyHeap = (?t, ?h0)"
    by (simp add: NewFileTracker_def emptyHeap_def)
  from tracker_reads_are_copies [OF new, of exampleSession] obtain h c where run:
    "run ?t exampleSession (?h0, \<lparr> heldInfos = [], heldTables = [] \<rparr>) = Ok (h, c)"
    and one: "\<forall>stepID. readArtifact ?t stepID h = Ok (recorded ?t exampleSession Map.empty stepID)"
    and every: "readAll ?t h = Ok (recorded ?t exampleSession Map.empty)"
    by blast
  have rec: "recorded ?t exampleSession Map.empty =
      [''1.1'' \<mapsto> \<lparr> StepID_a = ''1.1'', Title_a = ''Outline'', FilePath = ''docs/a.md'',
                      Status = ''completed'', Summary = [], LineCount = 2, CreatedAt = 7 \<rparr>]"
    by (simp add: exampleSession_def exampleFS_def recordOf_def countLines_def)
  show ?thesis
    using example_run run one every rec by simp
qed


end
